theory Spec2Isabelle
  imports Main "HOL-Library.Multiset"
begin

section \<open>Go values: errors, panics, dynamically typed values\<close>

text \<open>
  A Go function of the plugin either returns (an \<open>error\<close> result is \<open>None\<close> for
  \<open>nil\<close>), or panics. \<open>errorString\<close> is what \<open>errors.New\<close> and \<open>fmt.Errorf\<close> build;
  \<open>libError\<close> stands for an error value handed back by a library call
  (\<open>url.Parse\<close>, \<open>http.Client.Do\<close>, the JSON decoder).
\<close>

datatype error = errorString string | libError string

datatype 'a res = Return 'a | Panic string

text \<open>
  \<open>interface{}\<close> values as the plugin meets them: what \<open>encoding/json\<close> decodes into an
  \<open>interface{}\<close> (nil, bool, float64, string, slice, string-keyed map) and the \<open>int\<close> the
  temperature parser returns. A float64 is carried as an uninterpreted pair; the plugin
  passes numbers through unchanged. A Go map is an association list: lookup is
  \<open>map_of\<close>, and the order of the list is the order in which \<open>range\<close> happens to visit it.
\<close>

type_synonym float64 = "int \<times> int"

datatype iface =
    Nil
  | Bool bool
  | Float64 float64
  | String string
  | GoInt int
  | Slice "iface list"
  | Map "(string \<times> iface) list"

definition index_map :: "(string \<times> iface) list \<Rightarrow> string \<Rightarrow> iface" where
  \<comment> \<open>\<open>m[k]\<close> on a \<open>map[string]interface{}\<close>: the zero value \<open>nil\<close> for a missing key\<close>
  "index_map m k = (case map_of m k of None \<Rightarrow> Nil | Some v \<Rightarrow> v)"

definition assert_string :: "iface \<Rightarrow> string res" where
  \<comment> \<open>the unchecked type assertion \<open>x.(string)\<close>\<close>
  "assert_string x =
     (case x of String s \<Rightarrow> Return s
      | _ \<Rightarrow> Panic ''interface conversion: interface {} is not string'')"

definition assert_map :: "iface \<Rightarrow> (string \<times> iface) list res" where
  \<comment> \<open>the unchecked type assertion \<open>x.(map[string]interface{})\<close>\<close>
  "assert_map x =
     (case x of Map m \<Rightarrow> Return m
      | _ \<Rightarrow> Panic ''interface conversion: interface {} is not map[string]interface {}'')"

section \<open>Package strconv\<close>

definition digit_val :: "char \<Rightarrow> nat option" where
  "digit_val ch =
     (let n = (of_char ch :: nat) in if 48 \<le> n \<and> n \<le> 57 then Some (n - 48) else None)"

datatype NumError = ErrSyntax | ErrRange

definition intSize :: nat where
  \<comment> \<open>the size of \<open>int\<close> on the 64-bit targets\<close>
  "intSize = 64"

fun ParseUint_loop :: "nat \<Rightarrow> string \<Rightarrow> nat \<times> NumError option" where
  \<comment> \<open>the loop of \<open>strconv.ParseUint(s, 10, 0)\<close> over the bytes of \<open>s\<close>, \<open>n\<close> the number read so
     far: a byte that is no decimal digit is a syntax error; a digit that takes the number
     past \<open>maxVal\<close>, the largest \<open>uint64\<close>, is a range error at once, whatever follows\<close>
  "ParseUint_loop n [] = (n, None)"
| "ParseUint_loop n (ch # s) =
     (case digit_val ch of
        None \<Rightarrow> (0, Some ErrSyntax)
      | Some d \<Rightarrow>
          if n \<ge> (2 ^ intSize - 1) div 10 + 1 then (2 ^ intSize - 1, Some ErrRange)
          else if n * 10 + d > 2 ^ intSize - 1 then (2 ^ intSize - 1, Some ErrRange)
          else ParseUint_loop (n * 10 + d) s)"

definition ParseUint :: "string \<Rightarrow> nat \<times> NumError option" where
  "ParseUint s = (if s = [] then (0, Some ErrSyntax) else ParseUint_loop 0 s)"

definition ParseInt :: "string \<Rightarrow> int \<times> NumError option" where
  \<comment> \<open>\<open>strconv.ParseInt(s, 10, 0)\<close>: an optional sign, then \<open>ParseUint\<close>; a syntax error gives 0,
     a number beyond the range of \<open>int\<close> the nearest bound and a range error\<close>
  "ParseInt s =
     (if s = [] then (0, Some ErrSyntax)
      else
        let neg = (hd s = CHR ''-'');
            s1 = (if hd s = CHR ''+'' \<or> hd s = CHR ''-'' then tl s else s)
        in case ParseUint s1 of
             (un, Some ErrSyntax) \<Rightarrow> (0, Some ErrSyntax)
           | (un, _) \<Rightarrow>
               let cutoff = (2::nat) ^ (intSize - 1) in
               if \<not> neg \<and> un \<ge> cutoff then (int cutoff - 1, Some ErrRange)
               else if neg \<and> un > cutoff then (- int cutoff, Some ErrRange)
               else (if neg then - int un else int un, None))"

definition Atoi :: "string \<Rightarrow> int \<times> NumError option" where
  \<comment> \<open>\<open>strconv.Atoi\<close> is \<open>ParseInt(s, 10, 0)\<close> converted to \<open>int\<close>; its fast path for a string
     of fewer than 19 bytes reads the same sign and digits and cannot overflow\<close>
  "Atoi s = ParseInt s"

text \<open>
  The number a string of decimal digits writes, for stating what \<open>Atoi\<close> returns.
\<close>

fun decimal_from :: "nat \<Rightarrow> string \<Rightarrow> nat" where
  "decimal_from n [] = n"
| "decimal_from n (ch # s) = decimal_from (n * 10 + ((of_char ch :: nat) - 48)) s"

definition decimal :: "string \<Rightarrow> nat" where
  \<comment> \<open>the number a string of decimal digits writes\<close>
  "decimal ds = decimal_from 0 ds"

fun digits10 :: "nat \<Rightarrow> string" where
  "digits10 n =
     (if n < 10 then [char_of (48 + n)]
      else digits10 (n div 10) @ [char_of (48 + n mod 10)])"

declare digits10.simps [simp del]

definition Itoa :: "int \<Rightarrow> string" where
  \<comment> \<open>the verb \<open>%d\<close>\<close>
  "Itoa i = (if i < 0 then CHR ''-'' # digits10 (nat (- i)) else digits10 (nat i))"

definition Sprintf_02d :: "int \<Rightarrow> string" where
  \<comment> \<open>the verb \<open>%02d\<close>: at least two characters, padded with zeros after the sign\<close>
  "Sprintf_02d i =
     (if 0 \<le> i \<and> i < 10 then CHR ''0'' # digits10 (nat i) else Itoa i)"

section \<open>Package unicode/utf8 and package strings\<close>

text \<open>
  Strings are byte strings. \<open>strings.ToLower\<close> works on the runes of the UTF-8 decoding
  once a byte beyond ASCII is present, so the decoder and the encoder are part of the
  model. Runes are natural numbers here; the bytes are handled as numbers below 256.
\<close>

definition RuneError :: nat where
  "RuneError = 0xFFFD"

definition first_size :: "nat \<Rightarrow> nat" where
  \<comment> \<open>table \<open>first\<close>: the length announced by a leading byte, 0 for an invalid one\<close>
  "first_size b =
     (if 0xC2 \<le> b \<and> b \<le> 0xDF then 2
      else if 0xE0 \<le> b \<and> b \<le> 0xEF then 3
      else if 0xF0 \<le> b \<and> b \<le> 0xF4 then 4
      else 0)"

definition accept_lo :: "nat \<Rightarrow> nat" where
  "accept_lo b = (if b = 0xE0 then 0xA0 else if b = 0xF0 then 0x90 else 0x80)"

definition accept_hi :: "nat \<Rightarrow> nat" where
  "accept_hi b = (if b = 0xED then 0x9F else if b = 0xF4 then 0x8F else 0xBF)"

definition contb :: "nat \<Rightarrow> bool" where
  "contb b = (0x80 \<le> b \<and> b \<le> 0xBF)"

fun DecodeRune :: "nat list \<Rightarrow> nat \<times> nat" where
  "DecodeRune [] = (RuneError, 0)"
| "DecodeRune (s0 # s) =
     (if s0 < 0x80 then (s0, 1)
      else if first_size s0 = 0 then (RuneError, 1)
      else if length (s0 # s) < first_size s0 then (RuneError, 1)
      else
        let s1 = s ! 0 in
        if s1 < accept_lo s0 \<or> accept_hi s0 < s1 then (RuneError, 1)
        else if first_size s0 \<le> 2 then ((s0 mod 32) * 64 + s1 mod 64, 2)
        else
          let s2 = s ! 1 in
          if \<not> contb s2 then (RuneError, 1)
          else if first_size s0 \<le> 3 then
            ((s0 mod 16) * 4096 + (s1 mod 64) * 64 + s2 mod 64, 3)
          else
            let s3 = s ! 2 in
            if \<not> contb s3 then (RuneError, 1)
            else ((s0 mod 8) * 262144 + (s1 mod 64) * 4096 + (s2 mod 64) * 64 + s3 mod 64, 4))"

declare DecodeRune.simps(2) [simp del]

function runes :: "nat list \<Rightarrow> nat list" where
  \<comment> \<open>the runes \<open>for _, c := range s\<close> visits\<close>
  "runes s = (if s = [] then [] else fst (DecodeRune s) # runes (drop (snd (DecodeRune s)) s))"
  by pat_completeness auto
termination
proof (relation "measure length")
  show "wf (measure length)" by simp
next
  fix s :: "nat list"
  assume ne: "s \<noteq> []"
  then obtain s0 t where s: "s = s0 # t" by (cases s) auto
  have "first_size s0 = 0 \<or> first_size s0 = 2 \<or> first_size s0 = 3 \<or> first_size s0 = 4"
    by (simp add: first_size_def)
  then have "1 \<le> snd (DecodeRune s)"
    unfolding s by (auto simp: DecodeRune.simps(2) Let_def Suc_le_eq)
  with ne show "(drop (snd (DecodeRune s)) s, s) \<in> measure length"
    by simp
qed

declare runes.simps [simp del]

definition ValidRune :: "nat \<Rightarrow> bool" where
  "ValidRune r = (r < 0xD800 \<or> (0xDFFF < r \<and> r \<le> 0x10FFFF))"

definition EncodeRune :: "nat \<Rightarrow> nat list" where
  "EncodeRune r =
     (if r \<le> 0x7F then [r]
      else if r \<le> 0x7FF then [0xC0 + r div 64, 0x80 + r mod 64]
      else if r > 0x10FFFF \<or> (0xD800 \<le> r \<and> r \<le> 0xDFFF) then [0xEF, 0xBF, 0xBD]
      else if r \<le> 0xFFFF then
        [0xE0 + r div 4096, 0x80 + (r div 64) mod 64, 0x80 + r mod 64]
      else
        [0xF0 + r div 262144, 0x80 + (r div 4096) mod 64, 0x80 + (r div 64) mod 64,
         0x80 + r mod 64])"

definition bytes_of :: "string \<Rightarrow> nat list" where
  "bytes_of s = map of_char s"

definition string_of :: "nat list \<Rightarrow> string" where
  "string_of bs = map char_of bs"

definition strings_Map :: "(nat \<Rightarrow> nat) \<Rightarrow> string \<Rightarrow> string" where
  \<comment> \<open>\<open>strings.Map\<close> for a mapping that never returns a negative rune: every rune of the
     decoding (an invalid byte counts as \<open>RuneError\<close>) is replaced by the encoding of its
     image\<close>
  "strings_Map mapping s = string_of (concat (map (\<lambda>c. EncodeRune (mapping c)) (runes (bytes_of s))))"

definition unicode_ToLower :: "(nat \<Rightarrow> nat) \<Rightarrow> nat \<Rightarrow> nat" where
  \<comment> \<open>\<open>unicode.ToLower\<close>; \<open>tbl\<close> is \<open>To(LowerCase, r)\<close> on the runes beyond ASCII, that is
     the Unicode case tables of package unicode, which are a parameter of the model\<close>
  "unicode_ToLower tbl r =
     (if r \<le> 0x7F then (if 65 \<le> r \<and> r \<le> 90 then r + 32 else r) else tbl r)"

definition ToLower :: "(nat \<Rightarrow> nat) \<Rightarrow> string \<Rightarrow> string" where
  "ToLower tbl s =
     (if list_all (\<lambda>ch. (of_char ch :: nat) < 0x80) s then
        (if \<not> list_ex (\<lambda>ch. 65 \<le> (of_char ch :: nat) \<and> (of_char ch :: nat) \<le> 90) s then s
         else map (\<lambda>ch. if 65 \<le> (of_char ch :: nat) \<and> (of_char ch :: nat) \<le> 90
                         then char_of ((of_char ch :: nat) + 32) else ch) s)
      else strings_Map (unicode_ToLower tbl) s)"

definition HasPrefix :: "string \<Rightarrow> string \<Rightarrow> bool" where
  "HasPrefix s pre = (length pre \<le> length s \<and> take (length pre) s = pre)"

definition HasSuffix :: "string \<Rightarrow> string \<Rightarrow> bool" where
  "HasSuffix s suf = (length suf \<le> length s \<and> drop (length s - length suf) s = suf)"

definition TrimSuffix :: "string \<Rightarrow> string \<Rightarrow> string" where
  "TrimSuffix s suf = (if HasSuffix s suf then take (length s - length suf) s else s)"

function Replace_all :: "string \<Rightarrow> string \<Rightarrow> string \<Rightarrow> string" where
  \<comment> \<open>\<open>strings.Replace(s, old, new, -1)\<close> for a non-empty \<open>old\<close>: the non-overlapping
     occurrences, from the left\<close>
  "Replace_all s old new =
     (if s = [] \<or> old = [] then s
      else if HasPrefix s old then new @ Replace_all (drop (length old) s) old new
      else hd s # Replace_all (tl s) old new)"
  by pat_completeness auto
termination
  by (relation "measure (\<lambda>(s, old, new). length s)") (auto simp: HasPrefix_def)

declare Replace_all.simps [simp del]

definition keyify :: "(nat \<Rightarrow> nat) \<Rightarrow> string \<Rightarrow> string" where
  "keyify tbl s = Replace_all (ToLower tbl s) '' '' ''_''"

text \<open>
  What \<open>keyify\<close> does to one rune of its argument: for the proofs about \<open>keyify\<close>.
\<close>

definition keyify_rune :: "(nat \<Rightarrow> nat) \<Rightarrow> nat \<Rightarrow> nat" where
  "keyify_rune tbl r = (if unicode_ToLower tbl r = 32 then 95 else unicode_ToLower tbl r)"

section \<open>Package net/url: how a URL is written out\<close>

text \<open>
  \<open>device.send\<close> builds the address of every request with \<open>URL.String\<close>, so that method
  is modelled after the library: \<open>String\<close> writes the path through \<open>EscapedPath\<close>, which
  returns the field \<open>RawPath\<close> only when it is a valid encoding of the field \<open>Path\<close>, and
  encodes \<open>Path\<close> itself otherwise.
\<close>

datatype encoding =
    encodePath | encodePathSegment | encodeHost | encodeZone
  | encodeUserPassword | encodeQueryComponent | encodeFragment

definition alnum :: "char \<Rightarrow> bool" where
  "alnum ch =
     (let n = (of_char ch :: nat)
      in (97 \<le> n \<and> n \<le> 122) \<or> (65 \<le> n \<and> n \<le> 90) \<or> (48 \<le> n \<and> n \<le> 57))"

definition shouldEscape :: "char \<Rightarrow> encoding \<Rightarrow> bool" where
  "shouldEscape ch mode =
     (if alnum ch then False
      else if (mode = encodeHost \<or> mode = encodeZone)
              \<and> ch \<in> set (''!$&()*+,;=:[]<>'' @ [CHR 0x27, CHR 0x22]) then False
      else if ch \<in> set ''-_.~'' then False
      else if ch \<in> set ''$&+,/:;=?@'' \<and> mode = encodePath then ch = CHR ''?''
      else if ch \<in> set ''$&+,/:;=?@'' \<and> mode = encodePathSegment then ch \<in> set ''/;,?''
      else if ch \<in> set ''$&+,/:;=?@'' \<and> mode = encodeUserPassword then ch \<in> set ''@/?:''
      else if ch \<in> set ''$&+,/:;=?@'' \<and> mode = encodeQueryComponent then True
      else if ch \<in> set ''$&+,/:;=?@'' \<and> mode = encodeFragment then False
      else if mode = encodeFragment \<and> ch \<in> set ''!()*'' then False
      else True)"

definition upperhex :: "nat \<Rightarrow> char" where
  "upperhex n = ''0123456789ABCDEF'' ! (n mod 16)"

definition escape :: "string \<Rightarrow> encoding \<Rightarrow> string" where
  "escape s mode =
     concat (map (\<lambda>ch.
        if shouldEscape ch mode then
          (if ch = CHR '' '' \<and> mode = encodeQueryComponent then ''+''
           else [CHR ''%'', upperhex ((of_char ch :: nat) div 16), upperhex ((of_char ch :: nat) mod 16)])
        else [ch]) s)"

definition QueryEscape :: "string \<Rightarrow> string" where
  "QueryEscape s = escape s encodeQueryComponent"

definition unhex :: "char \<Rightarrow> nat option" where
  "unhex ch =
     (let n = (of_char ch :: nat)
      in if 48 \<le> n \<and> n \<le> 57 then Some (n - 48)
         else if 97 \<le> n \<and> n \<le> 102 then Some (n - 97 + 10)
         else if 65 \<le> n \<and> n \<le> 70 then Some (n - 65 + 10)
         else None)"

fun unescape :: "string \<Rightarrow> error + string" where
  \<comment> \<open>\<open>unescape\<close> in the modes \<open>encodePath\<close> and \<open>encodeFragment\<close>: every \<open>%\<close> must be
     followed by two hexadecimal digits, and nothing else is rewritten\<close>
  "unescape [] = Inr []"
| "unescape [ch] = (if ch = CHR ''%'' then Inl (libError ''invalid URL escape'') else Inr [ch])"
| "unescape [ch, h1] =
     (if ch = CHR ''%'' then Inl (libError ''invalid URL escape'')
      else case unescape [h1] of Inl e \<Rightarrow> Inl e | Inr t \<Rightarrow> Inr (ch # t))"
| "unescape (ch # h1 # h2 # s) =
     (if ch = CHR ''%'' then
        (case (unhex h1, unhex h2) of
           (Some a, Some b) \<Rightarrow>
             (case unescape s of Inl e \<Rightarrow> Inl e | Inr t \<Rightarrow> Inr (char_of (a * 16 + b) # t))
         | _ \<Rightarrow> Inl (libError ''invalid URL escape''))
      else case unescape (h1 # h2 # s) of Inl e \<Rightarrow> Inl e | Inr t \<Rightarrow> Inr (ch # t))"

definition validEncoded :: "string \<Rightarrow> encoding \<Rightarrow> bool" where
  "validEncoded s mode =
     list_all (\<lambda>ch. ch \<in> set (''!$&()*+,;=:@[]%'' @ [CHR 0x27]) \<or> \<not> shouldEscape ch mode) s"

record Userinfo =
  username :: string
  password :: string
  passwordSet :: bool

record URL =
  Scheme :: string
  Opaque :: string
  URL_User :: "Userinfo option"
  Host :: string
  Path :: string
  RawPath :: string
  OmitHost :: bool
  ForceQuery :: bool
  RawQuery :: string
  Fragment :: string
  RawFragment :: string

definition Userinfo_String :: "Userinfo \<Rightarrow> string" where
  "Userinfo_String ui =
     escape (username ui) encodeUserPassword
     @ (if passwordSet ui then '':'' @ escape (password ui) encodeUserPassword else [])"

definition EscapedPath :: "URL \<Rightarrow> string" where
  "EscapedPath u =
     (if RawPath u \<noteq> [] \<and> validEncoded (RawPath u) encodePath
         \<and> unescape (RawPath u) = Inr (Path u) then RawPath u
      else if Path u = ''*'' then ''*''
      else escape (Path u) encodePath)"

definition EscapedFragment :: "URL \<Rightarrow> string" where
  "EscapedFragment u =
     (if RawFragment u \<noteq> [] \<and> validEncoded (RawFragment u) encodeFragment
         \<and> unescape (RawFragment u) = Inr (Fragment u) then RawFragment u
      else escape (Fragment u) encodeFragment)"

definition URL_String :: "URL \<Rightarrow> string" where
  "URL_String u =
     (let buf0 = (if Scheme u \<noteq> [] then Scheme u @ '':'' else []);
          buf1 =
            (if Opaque u \<noteq> [] then buf0 @ Opaque u
             else
               let authority =
                     (if \<not> (Scheme u = [] \<and> Host u = [] \<and> URL_User u = None) then
                        (if OmitHost u \<and> Host u = [] \<and> URL_User u = None then buf0
                         else
                           (if \<not> (Host u = [] \<and> Path u = [] \<and> URL_User u = None)
                            then buf0 @ ''//'' else buf0)
                           @ (case URL_User u of None \<Rightarrow> [] | Some ui \<Rightarrow> Userinfo_String ui @ ''@'')
                           @ (if Host u \<noteq> [] then escape (Host u) encodeHost else []))
                      else buf0);
                   path = EscapedPath u;
                   slash =
                     (if path \<noteq> [] \<and> hd path \<noteq> CHR ''/'' \<and> Host u \<noteq> [] then authority @ ''/''
                      else authority);
                   dot =
                     (if slash = [] \<and> CHR '':'' \<in> set (takeWhile (\<lambda>ch. ch \<noteq> CHR ''/'') path)
                      then ''./'' else slash)
               in dot @ path);
          buf2 = (if ForceQuery u \<or> RawQuery u \<noteq> [] then buf1 @ ''?'' @ RawQuery u else buf1)
      in if Fragment u \<noteq> [] then buf2 @ ''#'' @ EscapedFragment u else buf2)"

section \<open>Package net/http\<close>

record Cookie =
  Name :: string
  Value :: string

record Request =
  Method :: string
  RequestURL :: string
  RequestBody :: "string option"
  RequestCookies :: "Cookie list"
  Header :: "(string \<times> string) list"

record Response =
  StatusCode :: int
  Cookies :: "Cookie list"
  Body :: string

datatype http_Client = http_Client

definition MethodGet :: string where
  "MethodGet = ''GET''"

definition MethodPost :: string where
  "MethodPost = ''POST''"

definition StatusOK :: int where
  "StatusOK = 200"

definition AddCookie :: "Request \<Rightarrow> Cookie option \<Rightarrow> Request res" where
  \<comment> \<open>\<open>r.AddCookie(c)\<close> reads \<open>c.Name\<close>: a nil cookie is a nil pointer dereference\<close>
  "AddCookie r k =
     (case k of
        None \<Rightarrow> Panic ''invalid memory address or nil pointer dereference''
      | Some k' \<Rightarrow> Return (r\<lparr>RequestCookies := RequestCookies r @ [k']\<rparr>))"

definition Header_Set :: "Request \<Rightarrow> string \<Rightarrow> string \<Rightarrow> Request" where
  "Header_Set r key v = r\<lparr>Header := (key, v) # filter (\<lambda>p. fst p \<noteq> key) (Header r)\<rparr>"

section \<open>The field pattern rules\<close>

datatype regexp = regexpTemp | regexpMeter | regexpVC | regexpStatus | regexpRelay

definition literal :: "regexp \<Rightarrow> string" where
  \<comment> \<open>the literal in front of \<open>(\d+)$\<close> in each of the five patterns\<close>
  "literal re =
     (case re of regexpTemp \<Rightarrow> ''T1'' | regexpMeter \<Rightarrow> ''M1'' | regexpVC \<Rightarrow> ''VCLabel''
      | regexpStatus \<Rightarrow> ''S1'' | regexpRelay \<Rightarrow> ''R2'')"

definition FindStringSubmatch :: "regexp \<Rightarrow> string \<Rightarrow> string list" where
  \<comment> \<open>a pattern \<open>^lit(\d+)$\<close> matches the literal followed by one or more ASCII digits up to
     the end of the text; the result is the whole match and the digits, or nil\<close>
  "FindStringSubmatch re s =
     (let ds = drop (length (literal re)) s
      in if HasPrefix s (literal re) \<and> ds \<noteq> [] \<and> list_all (\<lambda>ch. digit_val ch \<noteq> None) ds
         then [s, ds] else [])"

definition parsers :: "regexp \<Rightarrow> (string \<times> iface) list \<Rightarrow> int \<Rightarrow> iface res" where
  "parsers re src index =
     (case re of
        regexpTemp \<Rightarrow>
          (case assert_string (index_map src (''TempValue'' @ Sprintf_02d index)) of
             Panic p \<Rightarrow> Panic p
           | Return t \<Rightarrow> Return (GoInt (fst (Atoi (TrimSuffix t '' *F'')))))
      | regexpMeter \<Rightarrow> Return (index_map src (''MeterValue'' @ Sprintf_02d index))
      | regexpVC \<Rightarrow> Return (index_map src (''VCValue'' @ Sprintf_02d index))
      | regexpStatus \<Rightarrow> Return (index_map src (''StatusIndicator'' @ Sprintf_02d index))
      | regexpRelay \<Rightarrow> Return (index_map src (''RelayIndicator'' @ Sprintf_02d index)))"

text \<open>
  The key a rule reads its value from, as the five closures build it with \<open>Sprintf\<close>.
\<close>

definition companion :: "regexp \<Rightarrow> int \<Rightarrow> string" where
  "companion re index =
     (case re of regexpTemp \<Rightarrow> ''TempValue'' | regexpMeter \<Rightarrow> ''MeterValue''
      | regexpVC \<Rightarrow> ''VCValue'' | regexpStatus \<Rightarrow> ''StatusIndicator''
      | regexpRelay \<Rightarrow> ''RelayIndicator'') @ Sprintf_02d index"

section \<open>The plugin: devices, the accumulator and the outside world\<close>

text \<open>
  A \<open>device\<close> is the struct of the same name without its back pointer \<open>bt\<close>: the two
  fields read through it, \<open>User\<close> and \<open>Password\<close>, are read from the plugin value that is
  passed along. A nil pointer is \<open>None\<close>.
\<close>

record device =
  base :: URL
  c :: "http_Client option"
  ck :: "Cookie option"

record BroadcastTools =
  URLs :: "string list"
  User :: string
  Password :: string
  devices :: "device list"
  initialized :: bool

text \<open>
  The accumulator of the host framework, as the log of what it was given:
  \<open>AddFields(measurement, fields, tags)\<close> and \<open>AddError(err)\<close>. A nil tag map is \<open>None\<close>.
\<close>

record Accumulator =
  Metrics :: "(string \<times> (string \<rightharpoonup> iface) \<times> (string \<rightharpoonup> string) option) list"
  Errors :: "error list"

definition AddFields ::
  "Accumulator \<Rightarrow> string \<Rightarrow> (string \<rightharpoonup> iface) \<Rightarrow> (string \<rightharpoonup> string) option \<Rightarrow> Accumulator" where
  "AddFields acc measurement flds tags = acc\<lparr>Metrics := Metrics acc @ [(measurement, flds, tags)]\<rparr>"

definition AddError :: "Accumulator \<Rightarrow> error \<Rightarrow> Accumulator" where
  "AddError acc err = acc\<lparr>Errors := Errors acc @ [err]\<rparr>"

text \<open>
  Everything the plugin does not decide itself is a field of the environment:
  \<^item> \<open>url_Parse\<close>: \<open>url.Parse\<close>;
  \<^item> \<open>http_Do\<close>: the network behind \<open>http.Client.Do\<close>, a transition on a state \<open>'w\<close> of the
    outside world, so that the same request may be answered differently later;
  \<open>Inl\<close> is a transport error;
  \<^item> \<open>json_Decode\<close>: the next JSON value \<open>json.Decoder\<close> reads from a body, as it would be
    stored into an \<open>interface{}\<close>, or its syntax error;
  \<^item> \<open>To_LowerCase\<close>: the Unicode tables behind \<open>unicode.ToLower\<close> beyond ASCII;
  \<^item> \<open>range_parsers\<close>: the order in which \<open>range parsers\<close> visits the five rules while a
    given key is handled (Go leaves the order of a map iteration open);
  \<^item> \<open>go_order\<close>: the order in which the goroutines of one gather cycle get to run.
\<close>

record 'w env =
  url_Parse :: "string \<Rightarrow> error + URL"
  http_Do :: "'w \<Rightarrow> Request \<Rightarrow> (error + Response) \<times> 'w"
  json_Decode :: "string \<Rightarrow> error + iface"
  To_LowerCase :: "nat \<Rightarrow> nat"
  range_parsers :: "string \<Rightarrow> regexp list"
  go_order :: "device list \<Rightarrow> device list"

definition NewRequest :: "'w env \<Rightarrow> string \<Rightarrow> string \<Rightarrow> string option \<Rightarrow> error + Request" where
  \<comment> \<open>\<open>http.NewRequest\<close> fails when the address does not parse (the two methods the plugin
     passes are valid)\<close>
  "NewRequest env method url data =
     (case url_Parse env url of
        Inl err \<Rightarrow> Inl err
      | Inr u \<Rightarrow>
          Inr \<lparr>Method = method, RequestURL = url, RequestBody = data, RequestCookies = [],
               Header = []\<rparr>)"

definition Client_Do ::
  "'w env \<Rightarrow> http_Client option \<Rightarrow> Request \<Rightarrow> 'w \<Rightarrow> ((error + Response) \<times> 'w) res" where
  "Client_Do env cl r w =
     (case cl of
        None \<Rightarrow> Panic ''invalid memory address or nil pointer dereference''
      | Some _ \<Rightarrow> Return (http_Do env w r))"

definition send ::
  "'w env \<Rightarrow> device \<Rightarrow> string \<Rightarrow> string \<Rightarrow> string option \<Rightarrow> bool \<Rightarrow> 'w
     \<Rightarrow> ((error + Response) \<times> 'w) res" where
  "send env d method path data sendCookie w =
     (let u = (base d)\<lparr>RawPath := path\<rparr> in
      case NewRequest env method (URL_String u) data of
        Inl err \<Rightarrow> Return (Inl err, w)
      | Inr r \<Rightarrow>
          (case (if sendCookie then AddCookie r (ck d) else Return r) of
             Panic p \<Rightarrow> Panic p
           | Return r1 \<Rightarrow>
               Client_Do env (c d)
                 (if method = MethodPost
                  then Header_Set r1 ''Content-Type'' ''application/x-www-form-urlencoded''
                  else r1) w))"

definition login_form :: "BroadcastTools \<Rightarrow> string" where
  \<comment> \<open>\<open>v.Encode()\<close> for the three values set in \<open>Dial\<close>: the keys come out sorted\<close>
  "login_form bt =
     ''AccessVal='' @ ''&LoginPass='' @ QueryEscape (Password bt)
       @ ''&LoginUser='' @ QueryEscape (User bt)"

definition Dial :: "'w env \<Rightarrow> BroadcastTools \<Rightarrow> device \<Rightarrow> 'w \<Rightarrow> (error option \<times> device \<times> 'w) res" where
  "Dial env bt d w =
     (if ck d \<noteq> None then Return (Some (errorString ''already logged in''), d, w)
      else
        case send env d MethodPost ''/cgi-bin/postauth.cgi'' (Some (login_form bt)) False w of
          Panic p \<Rightarrow> Panic p
        | Return (Inl err, w') \<Rightarrow> Return (Some err, d, w')
        | Return (Inr r, w') \<Rightarrow>
            if StatusCode r \<noteq> StatusOK then
              Return (Some (errorString ''authentication failed''), d, w')
            else
              (case Cookies r of
                 [] \<Rightarrow> Return (Some (errorString ''no cookies returned''), d, w')
               | k # _ \<Rightarrow> Return (None, d\<lparr>ck := Some k\<rparr>, w')))"

text \<open>
  \<open>Close\<close> is declared on the value, \<open>func (d device) Close()\<close>, where \<open>Dial\<close> and \<open>Gather\<close>
  are declared on the pointer: its body runs on a copy of the device. \<open>Close_body\<close> is the
  body, returning the copy as it leaves it; \<open>Close\<close> is the call, which hands the caller
  its own device back as it was.
\<close>

definition Close_body :: "'w env \<Rightarrow> device \<Rightarrow> 'w \<Rightarrow> (error option \<times> device \<times> 'w) res" where
  "Close_body env d w =
     (case send env d MethodPost ''/cgi-bin/postlogout.cgi'' (Some ''Logout=1'') True w of
        Panic p \<Rightarrow> Panic p
      | Return (Inl err, w') \<Rightarrow> Return (None, d, w')
      | Return (Inr r, w') \<Rightarrow> Return (None, d\<lparr>c := None, ck := None\<rparr>, w'))"

definition Close :: "'w env \<Rightarrow> device \<Rightarrow> 'w \<Rightarrow> (error option \<times> device \<times> 'w) res" where
  "Close env d w =
     (case Close_body env d w of
        Panic p \<Rightarrow> Panic p
      | Return (err, copy, w') \<Rightarrow> Return (err, d, w'))"

definition decode_map :: "'w env \<Rightarrow> string \<Rightarrow> error + (string \<times> iface) list" where
  \<comment> \<open>\<open>json.NewDecoder(body).Decode(&data)\<close> for \<open>data\<close> a nil \<open>map[string]interface{}\<close>:
     an object fills the map, \<open>null\<close> leaves it nil, any other value is a type error\<close>
  "decode_map env body =
     (case json_Decode env body of
        Inl err \<Rightarrow> Inl err
      | Inr (Map m) \<Rightarrow> Inr m
      | Inr Nil \<Rightarrow> Inr []
      | Inr _ \<Rightarrow> Inl (libError ''json: cannot unmarshal into Go value of type map[string]interface {}''))"

fun range_parsers_loop ::
  "(nat \<Rightarrow> nat) \<Rightarrow> (string \<times> iface) list \<Rightarrow> string \<Rightarrow> iface \<Rightarrow> regexp list
     \<Rightarrow> (string \<rightharpoonup> iface) \<Rightarrow> (string \<rightharpoonup> iface) res" where
  "range_parsers_loop tbl values key name [] flds = Return flds"
| "range_parsers_loop tbl values key name (reg # regs) flds =
     (let matches = FindStringSubmatch reg key in
      if length matches < 2 then range_parsers_loop tbl values key name regs flds
      else
        case Atoi (matches ! 1) of
          (index, Some err) \<Rightarrow> range_parsers_loop tbl values key name regs flds
        | (index, None) \<Rightarrow>
            (case parsers reg values index of
               Panic p \<Rightarrow> Panic p
             | Return v \<Rightarrow>
                 (case assert_string name of
                    Panic p \<Rightarrow> Panic p
                  | Return label \<Rightarrow>
                      range_parsers_loop tbl values key name regs (flds(keyify tbl label \<mapsto> v)))))"

fun range_values_loop ::
  "'w env \<Rightarrow> (string \<times> iface) list \<Rightarrow> (string \<times> iface) list
     \<Rightarrow> (string \<rightharpoonup> iface) \<Rightarrow> (string \<rightharpoonup> iface) res" where
  "range_values_loop env values [] flds = Return flds"
| "range_values_loop env values ((key, name) # rest) flds =
     (case range_parsers_loop (To_LowerCase env) values key name (range_parsers env key) flds of
        Panic p \<Rightarrow> Panic p
      | Return flds' \<Rightarrow> range_values_loop env values rest flds')"

definition device_Gather ::
  "'w env \<Rightarrow> device \<Rightarrow> Accumulator \<Rightarrow> 'w \<Rightarrow> (error option \<times> Accumulator \<times> 'w) res" where
  "device_Gather env d acc w =
     (case send env d MethodGet ''/cgi-bin/getexchanger_monitor.cgi'' None True w of
        Panic p \<Rightarrow> Panic p
      | Return (Inl err, w') \<Rightarrow> Return (Some err, acc, w')
      | Return (Inr r, w') \<Rightarrow>
          if StatusCode r \<noteq> StatusOK then
            Return (Some (errorString (''expected status '' @ Itoa StatusOK @ ''; got ''
                                        @ Itoa (StatusCode r))), acc, w')
          else
            (case decode_map env (Body r) of
               Inl err \<Rightarrow> Return (Some err, acc, w')
             | Inr data \<Rightarrow>
                 (case assert_map (index_map data ''values'') of
                    Panic p \<Rightarrow> Panic p
                  | Return values \<Rightarrow>
                      (case range_values_loop env values values Map.empty of
                         Panic p \<Rightarrow> Panic p
                       | Return flds \<Rightarrow>
                           Return (None, AddFields acc ''broadcasttools'' flds None, w')))))"

fun init_loop ::
  "'w env \<Rightarrow> BroadcastTools \<Rightarrow> string list \<Rightarrow> 'w \<Rightarrow> (error option \<times> BroadcastTools \<times> 'w) res" where
  "init_loop env bt [] w = Return (None, bt, w)"
| "init_loop env bt (u # us) w =
     (case url_Parse env u of
        Inl err \<Rightarrow> Return (Some err, bt, w)
      | Inr b \<Rightarrow>
          (case Dial env bt \<lparr>base = b, c = Some http_Client, ck = None\<rparr> w of
             Panic p \<Rightarrow> Panic p
           | Return (Some err, d, w') \<Rightarrow> Return (Some err, bt, w')
           | Return (None, d, w') \<Rightarrow> init_loop env (bt\<lparr>devices := devices bt @ [d]\<rparr>) us w'))"

definition init :: "'w env \<Rightarrow> BroadcastTools \<Rightarrow> 'w \<Rightarrow> (error option \<times> BroadcastTools \<times> 'w) res" where
  "init env bt w =
     (if initialized bt then Return (None, bt, w)
      else
        case init_loop env bt (URLs bt) w of
          Panic p \<Rightarrow> Panic p
        | Return (Some err, bt', w') \<Rightarrow> Return (Some err, bt', w')
        | Return (None, bt', w') \<Rightarrow> Return (None, bt'\<lparr>initialized := True\<rparr>, w'))"

text \<open>
  One goroutine per device polls it and reports an error of the poll with \<open>AddError\<close>;
  \<open>wg.Wait\<close> joins them all. The accumulator is safe for concurrent use and each goroutine
  calls it once, so a cycle is the goroutines run one after the other in some order,
  which \<open>go_order\<close> picks. A panic in a goroutine ends the process.
\<close>

fun goroutines ::
  "'w env \<Rightarrow> device list \<Rightarrow> Accumulator \<Rightarrow> 'w \<Rightarrow> (Accumulator \<times> 'w) res" where
  "goroutines env [] acc w = Return (acc, w)"
| "goroutines env (d # ds) acc w =
     (case device_Gather env d acc w of
        Panic p \<Rightarrow> Panic p
      | Return (Some err, acc', w') \<Rightarrow> goroutines env ds (AddError acc' err) w'
      | Return (None, acc', w') \<Rightarrow> goroutines env ds acc' w')"

text \<open>
  What the goroutines of one cycle get back from \<open>d.Gather(a)\<close>, in the order in which they
  run: \<open>poll_results\<close> follows \<open>goroutines\<close> step by step and keeps the \<open>err\<close> of every poll.
\<close>

fun poll_results ::
  "'w env \<Rightarrow> device list \<Rightarrow> Accumulator \<Rightarrow> 'w \<Rightarrow> error option list res" where
  "poll_results env [] acc w = Return []"
| "poll_results env (d # ds) acc w =
     (case device_Gather env d acc w of
        Panic p \<Rightarrow> Panic p
      | Return (Some err, acc', w') \<Rightarrow>
          (case poll_results env ds (AddError acc' err) w' of
             Panic p \<Rightarrow> Panic p
           | Return es \<Rightarrow> Return (Some err # es))
      | Return (None, acc', w') \<Rightarrow>
          (case poll_results env ds acc' w' of
             Panic p \<Rightarrow> Panic p
           | Return es \<Rightarrow> Return (None # es)))"

definition Gather ::
  "'w env \<Rightarrow> BroadcastTools \<Rightarrow> Accumulator \<Rightarrow> 'w
     \<Rightarrow> (error option \<times> BroadcastTools \<times> Accumulator \<times> 'w) res" where
  "Gather env bt acc w =
     (case (if \<not> initialized bt then init env bt w else Return (None, bt, w)) of
        Panic p \<Rightarrow> Panic p
      | Return (Some err, bt', w') \<Rightarrow> Return (Some err, bt', acc, w')
      | Return (None, bt', w') \<Rightarrow>
          (case goroutines env (go_order env (devices bt')) acc w' of
             Panic p \<Rightarrow> Panic p
           | Return (acc', w'') \<Rightarrow> Return (None, bt', acc', w'')))"

section \<open>Test doubles\<close>

text \<open>
  Concrete environments on which the theorems below are instantiated. \<open>scripted_Do\<close> is a
  transport that records every request it is given and answers from a script, with a
  transport error once the script is used up; \<open>flaky_Do\<close> is a network that refuses the
  second request it ever sees and answers every other one.
\<close>

type_synonym script = "Request list \<times> (error + Response) list"

definition scripted_Do :: "script \<Rightarrow> Request \<Rightarrow> (error + Response) \<times> script" where
  "scripted_Do w r =
     (case snd w of
        [] \<Rightarrow> (Inl (libError ''connection refused''), (fst w @ [r], []))
      | x # xs \<Rightarrow> (x, (fst w @ [r], xs)))"

definition test_env ::
  "('w \<Rightarrow> Request \<Rightarrow> (error + Response) \<times> 'w) \<Rightarrow> (string \<times> URL) list \<Rightarrow> (string \<times> iface) list \<Rightarrow> 'w env" where
  "test_env do urls bodies =
     \<lparr>url_Parse = (\<lambda>s. case map_of urls s of
                          None \<Rightarrow> Inl (libError ''parse: invalid URL'')
                        | Some u \<Rightarrow> Inr u),
      http_Do = do,
      json_Decode = (\<lambda>s. case map_of bodies s of
                            None \<Rightarrow> Inl (libError ''invalid character'')
                          | Some v \<Rightarrow> Inr v),
      To_LowerCase = (\<lambda>r. r),
      range_parsers = (\<lambda>key. [regexpTemp, regexpMeter, regexpVC, regexpStatus, regexpRelay]),
      go_order = (\<lambda>ds. ds)\<rparr>"

definition localhost :: URL where
  \<comment> \<open>what \<open>url.Parse\<close> makes of \<open>http://localhost:1776\<close>, the address of the sample
     configuration\<close>
  "localhost =
     \<lparr>Scheme = ''http'', Opaque = [], URL_User = None, Host = ''localhost:1776'', Path = [],
      RawPath = [], OmitHost = False, ForceQuery = False, RawQuery = [], Fragment = [],
      RawFragment = []\<rparr>"

definition session :: Cookie where
  "session = \<lparr>Name = ''session'', Value = ''0123abcd''\<rparr>"

definition ok_response :: "string \<Rightarrow> Response" where
  "ok_response body = \<lparr>StatusCode = 200, Cookies = [session], Body = body\<rparr>"

definition plugin :: BroadcastTools where
  "plugin =
     \<lparr>URLs = [''http://localhost:1776''], User = ''admin'', Password = ''password'',
      devices = [], initialized = False\<rparr>"

definition logged_in :: device where
  "logged_in = \<lparr>base = localhost, c = Some http_Client, ck = Some session\<rparr>"

definition studio_b :: URL where
  \<comment> \<open>what \<open>url.Parse\<close> makes of \<open>http://studio-b:1776\<close>\<close>
  "studio_b = localhost\<lparr>Host := ''studio-b:1776''\<rparr>"

definition dq :: "string \<Rightarrow> string" where
  \<comment> \<open>a string between double quotes\<close>
  "dq s = CHR 0x22 # s @ [CHR 0x22]"

definition payload :: string where
  \<comment> \<open>the body \<open>{"values":{"M101":"Meter A","MeterValue01":5}}\<close>\<close>
  "payload =
     ''{'' @ dq ''values'' @ '':{'' @ dq ''M101'' @ '':'' @ dq ''Meter A'' @ '',''
       @ dq ''MeterValue01'' @ '':5}}''"

definition decoded :: iface where
  "decoded = Map [(''values'', Map [(''M101'', String ''Meter A''), (''MeterValue01'', Float64 (5, 0))])]"

definition logged_in_b :: device where
  "logged_in_b = \<lparr>base = studio_b, c = Some http_Client, ck = Some session\<rparr>"

definition on_air :: BroadcastTools where
  "on_air =
     \<lparr>URLs = [''http://localhost:1776'', ''http://studio-b:1776''], User = ''admin'',
      Password = ''password'', devices = [logged_in, logged_in_b], initialized = True\<rparr>"


definition flaky_Do :: "nat \<Rightarrow> Request \<Rightarrow> (error + Response) \<times> nat" where
  \<comment> \<open>a network on which the second request ever sent is refused\<close>
  "flaky_Do n r =
     (if n = 1 then Inl (libError ''connection refused'') else Inr (ok_response payload), Suc n)"

definition flaky_env :: "nat env" where
  "flaky_env =
     test_env flaky_Do
       [(''http://localhost:1776'', localhost), (''http://studio-b:1776'', studio_b)]
       [(payload, decoded)]"

definition latin1 :: "nat \<Rightarrow> nat" where
  \<comment> \<open>a case table that knows the capital letters of Latin-1 only\<close>
  "latin1 r = (if 0xC0 \<le> r \<and> r \<le> 0xDE \<and> r \<noteq> 0xD7 then r + 32 else r)"

definition script_env :: "script env" where
  "script_env =
     test_env scripted_Do [(''http://localhost:1776'', localhost)]
       [(''{}'', Map []), (''null'', Nil)]"

section \<open>The session protocol\<close>

lemma unescape_empty: "unescape p = Inr [] \<Longrightarrow> p = []"
  by (cases p rule: unescape.cases) (auto split: if_splits sum.splits option.splits)

lemma URL_String_localhost:
  "URL_String (localhost\<lparr>RawPath := p\<rparr>) = ''http://localhost:1776''"
  using unescape_empty [of p]
  by (auto simp add: URL_String_def localhost_def EscapedPath_def escape_def Let_def
      shouldEscape_def alnum_def)

text \<open>
  Claim C7: a device whose session cookie is set cannot log in again. \<open>Dial\<close> returns the
  error \<open>already logged in\<close>, sends nothing, and the device, its cookie included, is the
  one it was given.
\<close>

theorem Dial_already_logged_in:
  "ck d \<noteq> None \<Longrightarrow>
   Dial env bt d w = Return (Some (errorString ''already logged in''), d, w)"
  by (simp add: Dial_def)

theorem Dial_already_logged_in_witness:
  "ck logged_in \<noteq> None \<and>
   Dial script_env plugin logged_in ([], []) =
     Return (Some (errorString ''already logged in''), logged_in, ([], []))"
  using Dial_already_logged_in [of logged_in script_env plugin "([], [])"]
  by (simp add: logged_in_def)

text \<open>
  Whatever the transport answers, a call of \<open>Close\<close> that returns gives no error and
  leaves the caller's device as it was: the two assignments of its body reach the copy only.
\<close>

lemma Close_returns_nil_same_device:
  "Close env d w = Return (err, d', w') \<Longrightarrow> err = None \<and> d' = d"
  by (auto simp: Close_def Close_body_def split: res.splits sum.splits prod.splits)

text \<open>
  Claim C1, evaluated on a logged-in device whose logout request is answered with
  status 200: \<open>Close\<close> returns nil, but the device still holds its session cookie and its
  client afterwards, and the next \<open>Dial\<close> on it fails with \<open>already logged in\<close>.
\<close>

theorem Close_keeps_cookie:
  "Close script_env logged_in ([], [Inr (ok_response [])]) =
     Return (None, logged_in,
       ([\<lparr>Method = ''POST'', RequestURL = ''http://localhost:1776'',
          RequestBody = Some ''Logout=1'', RequestCookies = [session],
          Header = [(''Content-Type'', ''application/x-www-form-urlencoded'')]\<rparr>], []))
   \<and> ck logged_in = Some session
   \<and> c logged_in = Some http_Client
   \<and> Dial script_env plugin logged_in
       ([\<lparr>Method = ''POST'', RequestURL = ''http://localhost:1776'',
          RequestBody = Some ''Logout=1'', RequestCookies = [session],
          Header = [(''Content-Type'', ''application/x-www-form-urlencoded'')]\<rparr>], []) =
     Return (Some (errorString ''already logged in''), logged_in,
       ([\<lparr>Method = ''POST'', RequestURL = ''http://localhost:1776'',
          RequestBody = Some ''Logout=1'', RequestCookies = [session],
          Header = [(''Content-Type'', ''application/x-www-form-urlencoded'')]\<rparr>], []))"
  by (simp add: Close_def Close_body_def Dial_def send_def NewRequest_def script_env_def
      test_env_def URL_String_localhost logged_in_def AddCookie_def Client_Do_def
      scripted_Do_def Header_Set_def MethodPost_def)

section \<open>The field pattern rules and their transforms\<close>

lemma FindStringSubmatch_prefix:
  "FindStringSubmatch re s \<noteq> [] \<Longrightarrow> take (length (literal re)) s = literal re"
  by (auto simp: FindStringSubmatch_def HasPrefix_def Let_def split: if_splits)

lemma match_unique:
  "FindStringSubmatch r1 key \<noteq> [] \<Longrightarrow> FindStringSubmatch r2 key \<noteq> [] \<Longrightarrow> r1 = r2"
proof -
  assume a: "FindStringSubmatch r1 key \<noteq> []" and b: "FindStringSubmatch r2 key \<noteq> []"
  have p1: "take (length (literal r1)) key = literal r1" using a by (rule FindStringSubmatch_prefix)
  have p2: "take (length (literal r2)) key = literal r2" using b by (rule FindStringSubmatch_prefix)
  have "take 1 (literal r1) = take 1 (literal r2)"
  proof -
    have "take 1 (take (length (literal r1)) key) = take 1 key"
      by (cases r1) (simp_all add: literal_def)
    moreover have "take 1 (take (length (literal r2)) key) = take 1 key"
      by (cases r2) (simp_all add: literal_def)
    ultimately show ?thesis using p1 p2 by simp
  qed
  then show ?thesis
    by (cases r1; cases r2) (simp_all add: literal_def)
qed

lemma loop_no_match:
  "list_all (\<lambda>r. FindStringSubmatch r key = []) ps \<Longrightarrow>
   range_parsers_loop tbl vs key name ps flds = Return flds"
  by (induction ps) simp_all

lemma loop_single:
  "r \<in> set ps \<Longrightarrow> distinct ps \<Longrightarrow> FindStringSubmatch r key \<noteq> [] \<Longrightarrow>
   range_parsers_loop tbl vs key name ps flds = range_parsers_loop tbl vs key name [r] flds"
proof (induction ps)
  case Nil
  then show ?case by simp
next
  case (Cons q qs)
  show ?case
  proof (cases "q = r")
    case True
    have "list_all (\<lambda>r'. FindStringSubmatch r' key = []) qs"
      unfolding list_all_iff
    proof
      fix r' assume r': "r' \<in> set qs"
      with Cons.prems(2) True have "r' \<noteq> r" by auto
      with Cons.prems(3) match_unique [of r' key r] show "FindStringSubmatch r' key = []"
        by blast
    qed
    then have rest: "\<And>f. range_parsers_loop tbl vs key name qs f = Return f"
      by (rule loop_no_match)
    show ?thesis unfolding True
      by (simp add: rest Let_def split: prod.split option.split res.split)
  next
    case False
    then have "FindStringSubmatch q key = []"
      using Cons.prems(3) match_unique [of q key r] by blast
    moreover have "r \<in> set qs" "distinct qs" using Cons.prems False by auto
    ultimately show ?thesis using Cons.IH Cons.prems(3) by simp
  qed
qed

lemma loop_order:
  assumes "distinct ps" "distinct ps'" "set ps = set ps'"
  shows "range_parsers_loop tbl vs key name ps flds = range_parsers_loop tbl vs key name ps' flds"
proof (cases "\<exists>r \<in> set ps. FindStringSubmatch r key \<noteq> []")
  case True
  then obtain r where r: "r \<in> set ps" "FindStringSubmatch r key \<noteq> []" by blast
  with assms have "r \<in> set ps'" by simp
  with r assms show ?thesis
    using loop_single [of r ps key tbl vs name flds] loop_single [of r ps' key tbl vs name flds]
    by simp
next
  case False
  then have "list_all (\<lambda>r. FindStringSubmatch r key = []) ps" by (simp add: list_all_iff)
  moreover from False assms have "list_all (\<lambda>r. FindStringSubmatch r key = []) ps'"
    by (simp add: list_all_iff)
  ultimately show ?thesis by (simp add: loop_no_match)
qed

text \<open>
  Claim C9: the five patterns are pairwise disjoint, so a key is handled by at most one
  rule, and the loop over the rules gives the same result (the same field map, or the
  same panic) in whatever order it visits them.
\<close>

theorem rules_disjoint:
  "(FindStringSubmatch r1 key \<noteq> [] \<and> FindStringSubmatch r2 key \<noteq> [] \<longrightarrow> r1 = r2) \<and>
   (distinct ps \<and> distinct ps' \<and> set ps = set ps' \<longrightarrow>
      range_parsers_loop tbl vs key name ps flds = range_parsers_loop tbl vs key name ps' flds)"
  using match_unique [of r1 key r2] loop_order [of ps ps' tbl vs key name flds] by blast

theorem rules_disjoint_witness:
  "FindStringSubmatch regexpTemp ''T101'' = [''T101'', ''01''] \<and>
   FindStringSubmatch regexpMeter ''T101'' = [] \<and>
   range_parsers_loop (\<lambda>r. r) [(''T101'', String ''Rack''), (''TempValue01'', String ''72 *F'')]
       ''T101'' (String ''Rack'')
       [regexpTemp, regexpMeter, regexpVC, regexpStatus, regexpRelay] Map.empty =
     range_parsers_loop (\<lambda>r. r) [(''T101'', String ''Rack''), (''TempValue01'', String ''72 *F'')]
       ''T101'' (String ''Rack'')
       [regexpRelay, regexpStatus, regexpVC, regexpMeter, regexpTemp] Map.empty"
  using rules_disjoint [of regexpTemp "''T101''" regexpMeter
      "[regexpTemp, regexpMeter, regexpVC, regexpStatus, regexpRelay]"
      "[regexpRelay, regexpStatus, regexpVC, regexpMeter, regexpTemp]"
      "\<lambda>r. r" "[(''T101'', String ''Rack''), (''TempValue01'', String ''72 *F'')]"
      "String ''Rack''" Map.empty]
  by (auto simp: FindStringSubmatch_def literal_def HasPrefix_def digit_val_def Let_def)

lemma digit_val_Some: "digit_val ch \<noteq> None \<Longrightarrow> digit_val ch = Some ((of_char ch :: nat) - 48)"
  by (simp add: digit_val_def Let_def split: if_splits)

lemma digit_val_le_9: "digit_val ch = Some d \<Longrightarrow> d \<le> 9"
  by (auto simp: digit_val_def Let_def split: if_splits)

lemma decimal_from_mono: "n \<le> decimal_from n ds"
proof (induction ds arbitrary: n)
  case Nil
  then show ?case by simp
next
  case (Cons ch ds)
  have "n \<le> n * 10 + ((of_char ch :: nat) - 48)" by simp
  also have "\<dots> \<le> decimal_from (n * 10 + ((of_char ch :: nat) - 48)) ds" by (rule Cons.IH)
  finally show ?case by simp
qed

lemma ParseUint_loop_digits:
  "list_all (\<lambda>ch. digit_val ch \<noteq> None) ds \<Longrightarrow> decimal_from n ds < 2 ^ 64 \<Longrightarrow>
   ParseUint_loop n (ds @ rest) = ParseUint_loop (decimal_from n ds) rest"
proof (induction ds arbitrary: n)
  case Nil
  then show ?case by simp
next
  case (Cons ch ds)
  let ?d = "(of_char ch :: nat) - 48"
  from Cons.prems have dv: "digit_val ch = Some ?d" by (simp add: digit_val_Some)
  from Cons.prems have lt: "decimal_from (n * 10 + ?d) ds < 2 ^ 64" by simp
  have "n * 10 + ?d \<le> decimal_from (n * 10 + ?d) ds" by (rule decimal_from_mono)
  with lt have b: "n * 10 + ?d < 2 ^ 64" by linarith
  then have c: "\<not> n \<ge> (2 ^ 64 - 1) div 10 + 1" by simp
  from b have e: "\<not> n * 10 + ?d > 2 ^ 64 - 1" by simp
  from Cons.prems have "ParseUint_loop (n * 10 + ?d) (ds @ rest)
      = ParseUint_loop (decimal_from (n * 10 + ?d) ds) rest"
    using lt by (intro Cons.IH) simp_all
  with dv c e show ?case by (simp add: intSize_def)
qed

lemma ParseUint_loop_overflow:
  "list_all (\<lambda>ch. digit_val ch \<noteq> None) ds \<Longrightarrow> 2 ^ 64 \<le> decimal_from n ds \<Longrightarrow> n < 2 ^ 64 \<Longrightarrow>
   ParseUint_loop n (ds @ rest) = (2 ^ 64 - 1, Some ErrRange)"
proof (induction ds arbitrary: n)
  case Nil
  then show ?case by simp
next
  case (Cons ch ds)
  let ?d = "(of_char ch :: nat) - 48"
  from Cons.prems have dv: "digit_val ch = Some ?d" by (simp add: digit_val_Some)
  show ?case
  proof (cases "n \<ge> (2 ^ 64 - 1) div 10 + 1 \<or> n * 10 + ?d > 2 ^ 64 - 1")
    case True
    with dv show ?thesis by (auto simp add: intSize_def)
  next
    case False
    then have s: "n * 10 + ?d < 2 ^ 64" by simp
    from Cons.prems have "ParseUint_loop (n * 10 + ?d) (ds @ rest) = (2 ^ 64 - 1, Some ErrRange)"
      using s by (intro Cons.IH) simp_all
    with dv False show ?thesis by (simp add: intSize_def)
  qed
qed

lemma ParseUint_loop_syntax:
  "list_all (\<lambda>ch. digit_val ch \<noteq> None) ds \<Longrightarrow> decimal_from n ds < 2 ^ 64 \<Longrightarrow>
   digit_val ch = None \<Longrightarrow> ParseUint_loop n (ds @ ch # tail) = (0, Some ErrSyntax)"
  by (simp add: ParseUint_loop_digits)

lemma sign_not_digit: "digit_val CHR ''+'' = None" "digit_val CHR ''-'' = None"
  by (simp_all add: digit_val_def)

lemma Atoi_numeral:
  assumes sg: "sg = [] \<or> sg = ''+'' \<or> sg = ''-''"
    and ds: "ds \<noteq> []" "list_all (\<lambda>ch. digit_val ch \<noteq> None) ds"
  shows "Atoi (sg @ ds) =
     (if 2 ^ 64 \<le> decimal ds then (if sg = ''-'' then - (2 ^ 63) else 2 ^ 63 - 1, Some ErrRange)
      else if sg = ''-'' then
        (if 2 ^ 63 < decimal ds then (- (2 ^ 63), Some ErrRange) else (- int (decimal ds), None))
      else
        (if 2 ^ 63 \<le> decimal ds then (2 ^ 63 - 1, Some ErrRange) else (int (decimal ds), None)))"
proof -
  from ds obtain ch ds' where c: "ds = ch # ds'" "digit_val ch \<noteq> None" by (cases ds) auto
  then have hd: "hd ds \<noteq> CHR ''+''" "hd ds \<noteq> CHR ''-''" using sign_not_digit by auto
  have pu: "ParseUint ds =
      (if 2 ^ 64 \<le> decimal ds then (2 ^ 64 - 1, Some ErrRange) else (decimal ds, None))"
  proof (cases "2 ^ 64 \<le> decimal ds")
    case True
    then show ?thesis
      using ds ParseUint_loop_overflow [of ds 0 "[]"] by (simp add: ParseUint_def decimal_def)
  next
    case False
    then show ?thesis
      using ds ParseUint_loop_digits [of ds 0 "[]"] by (simp add: ParseUint_def decimal_def)
  qed
  from sg show ?thesis
  proof (elim disjE)
    assume "sg = []"
    with ds hd pu show ?thesis by (simp add: Atoi_def ParseInt_def Let_def intSize_def)
  next
    assume "sg = ''+''"
    with ds pu show ?thesis by (simp add: Atoi_def ParseInt_def Let_def intSize_def)
  next
    assume "sg = ''-''"
    with ds pu show ?thesis by (simp add: Atoi_def ParseInt_def Let_def intSize_def)
  qed
qed

lemma Atoi_bare_sign: "sg = [] \<or> sg = ''+'' \<or> sg = ''-'' \<Longrightarrow> Atoi sg = (0, Some ErrSyntax)"
  by (auto simp: Atoi_def ParseInt_def ParseUint_def Let_def)

lemma Atoi_not_digit:
  assumes sg: "sg = [] \<or> sg = ''+'' \<or> sg = ''-''"
    and ds: "list_all (\<lambda>ch. digit_val ch \<noteq> None) ds" "decimal ds < 2 ^ 64"
    and ch: "digit_val ch = None" "sg = [] \<and> ds = [] \<longrightarrow> ch \<noteq> CHR ''+'' \<and> ch \<noteq> CHR ''-''"
  shows "Atoi (sg @ ds @ ch # tail) = (0, Some ErrSyntax)"
proof -
  have pu: "ParseUint (ds @ ch # tail) = (0, Some ErrSyntax)"
    using ds ch(1) ParseUint_loop_syntax [of ds 0 ch tail] by (simp add: ParseUint_def decimal_def)
  have hd: "hd (ds @ ch # tail) \<noteq> CHR ''+'' \<and> hd (ds @ ch # tail) \<noteq> CHR ''-''" if "sg = []"
  proof (cases ds)
    case Nil
    with that ch(2) show ?thesis by simp
  next
    case (Cons a as)
    with ds(1) have "digit_val a \<noteq> None" by simp
    with Cons show ?thesis using sign_not_digit by auto
  qed
  from sg show ?thesis
  proof (elim disjE)
    assume s: "sg = []"
    with hd pu show ?thesis by (simp add: Atoi_def ParseInt_def Let_def)
  next
    assume "sg = ''+''"
    with pu show ?thesis by (simp add: Atoi_def ParseInt_def Let_def)
  next
    assume "sg = ''-''"
    with pu show ?thesis by (simp add: Atoi_def ParseInt_def Let_def)
  qed
qed

lemma Atoi_overflow:
  assumes sg: "sg = [] \<or> sg = ''+'' \<or> sg = ''-''"
    and ds: "list_all (\<lambda>ch. digit_val ch \<noteq> None) ds" "2 ^ 64 \<le> decimal ds"
  shows "Atoi (sg @ ds @ tail) = (if sg = ''-'' then - (2 ^ 63) else 2 ^ 63 - 1, Some ErrRange)"
proof -
  from ds(2) have ne: "ds \<noteq> []" by (auto simp: decimal_def)
  then obtain a as where c: "ds = a # as" by (cases ds) auto
  with ds(1) have "digit_val a \<noteq> None" by simp
  with c have hd: "hd (ds @ tail) \<noteq> CHR ''+''" "hd (ds @ tail) \<noteq> CHR ''-''"
    using sign_not_digit by auto
  have pu: "ParseUint (ds @ tail) = (2 ^ 64 - 1, Some ErrRange)"
    using ds ne ParseUint_loop_overflow [of ds 0 tail] by (simp add: ParseUint_def decimal_def)
  from sg show ?thesis
  proof (elim disjE)
    assume "sg = []"
    with ne hd pu show ?thesis by (simp add: Atoi_def ParseInt_def Let_def intSize_def)
  next
    assume "sg = ''+''"
    with ne pu show ?thesis by (simp add: Atoi_def ParseInt_def Let_def intSize_def)
  next
    assume "sg = ''-''"
    with ne pu show ?thesis by (simp add: Atoi_def ParseInt_def Let_def intSize_def)
  qed
qed

lemma Atoi_72: "Atoi ''72'' = (72, None)"
  by (simp add: Atoi_def ParseInt_def ParseUint_def digit_val_def Let_def intSize_def)

lemma Atoi_01: "Atoi ''01'' = (1, None)"
  by (simp add: Atoi_def ParseInt_def ParseUint_def digit_val_def Let_def intSize_def)

lemma Atoi_too_big: "Atoi ''99999999999999999999'' = (9223372036854775807, Some ErrRange)"
  by (simp add: Atoi_def ParseInt_def ParseUint_def digit_val_def Let_def intSize_def)

text \<open>
  A range error comes before a later syntax error: the digits run past 64 bits before
  the byte that is no digit is reached.
\<close>

lemma Atoi_overflow_then_letter:
  "Atoi ''999999999999999999999 F'' = (9223372036854775807, Some ErrRange)"
  by (simp add: Atoi_def ParseInt_def ParseUint_def digit_val_def Let_def intSize_def)

lemma Atoi_neg_overflow_then_letter:
  "Atoi ''-99999999999999999999999x'' = (- 9223372036854775808, Some ErrRange)"
  by (simp add: Atoi_def ParseInt_def ParseUint_def digit_val_def Let_def intSize_def)

lemma Atoi_digits:
  "ds \<noteq> [] \<Longrightarrow> list_all (\<lambda>ch. digit_val ch \<noteq> None) ds \<Longrightarrow> decimal ds < 2 ^ 63 \<Longrightarrow>
   Atoi ds = (int (decimal ds), None)"
  using Atoi_numeral [of "[]" ds] by simp

lemma TrimSuffix_append: "TrimSuffix (s @ suf) suf = s"
  by (simp add: TrimSuffix_def HasSuffix_def)

lemma TrimSuffix_none: "\<not> HasSuffix s suf \<Longrightarrow> TrimSuffix s suf = s"
  by (simp add: TrimSuffix_def)

lemma parsers_Temp:
  "index_map src (''TempValue'' @ Sprintf_02d index) = String t \<Longrightarrow>
   parsers regexpTemp src index = Return (GoInt (fst (Atoi (TrimSuffix t '' *F''))))"
  by (simp add: parsers_def assert_string_def)

text \<open>
  Claim C5, as the code has it. The temperature rule strips the suffix \<open> *F\<close> from the
  companion string (a string without the suffix is left whole) and gives what
  \<open>strconv.Atoi\<close> makes of the rest \<open>r\<close>: 72 for \<open>72 *F\<close>; for an optional sign \<open>sg\<close> and digits
  \<open>ds\<close>, the integer they write when \<open>r\<close> is \<open>sg @ ds\<close> and the integer is in the range of
  \<open>int\<close>, and the bound of \<open>int\<close> on the side of the sign when it is not; that bound also
  when \<open>r\<close> starts with \<open>sg @ ds\<close> and the digits alone exceed 64 bits, whatever follows
  them; 0 when \<open>r\<close> is empty or a bare sign, and 0 when a byte that is no digit follows
  digits that fit 64 bits.
\<close>

theorem Temp_transform:
  "index_map src (''TempValue'' @ Sprintf_02d index) = String t \<Longrightarrow>
   (t = ''72 *F'' \<longrightarrow> parsers regexpTemp src index = Return (GoInt 72)) \<and>
   (t = r @ '' *F'' \<longrightarrow> TrimSuffix t '' *F'' = r) \<and>
   (\<not> HasSuffix t '' *F'' \<longrightarrow> TrimSuffix t '' *F'' = t) \<and>
   ((sg = [] \<or> sg = ''+'' \<or> sg = ''-'') \<and> list_all (\<lambda>ch. digit_val ch \<noteq> None) ds \<longrightarrow>
      (TrimSuffix t '' *F'' = sg @ ds \<and> ds \<noteq> [] \<and>
         (if sg = ''-'' then decimal ds \<le> 2 ^ 63 else decimal ds < 2 ^ 63) \<longrightarrow>
         parsers regexpTemp src index =
           Return (GoInt (if sg = ''-'' then - int (decimal ds) else int (decimal ds)))) \<and>
      (TrimSuffix t '' *F'' = sg @ ds \<and> ds \<noteq> [] \<and>
         (if sg = ''-'' then 2 ^ 63 < decimal ds else 2 ^ 63 \<le> decimal ds) \<longrightarrow>
         parsers regexpTemp src index =
           Return (GoInt (if sg = ''-'' then - (2 ^ 63) else 2 ^ 63 - 1))) \<and>
      (TrimSuffix t '' *F'' = sg @ ds @ tail \<and> 2 ^ 64 \<le> decimal ds \<longrightarrow>
         parsers regexpTemp src index =
           Return (GoInt (if sg = ''-'' then - (2 ^ 63) else 2 ^ 63 - 1))) \<and>
      (TrimSuffix t '' *F'' = sg \<longrightarrow> parsers regexpTemp src index = Return (GoInt 0)) \<and>
      (TrimSuffix t '' *F'' = sg @ ds @ ch # tail \<and> decimal ds < 2 ^ 64 \<and> digit_val ch = None \<and>
         \<not> (sg = [] \<and> ds = [] \<and> (ch = CHR ''+'' \<or> ch = CHR ''-'')) \<longrightarrow>
         parsers regexpTemp src index = Return (GoInt 0)))"
proof -
  assume a: "index_map src (''TempValue'' @ Sprintf_02d index) = String t"
  note p = parsers_Temp [OF a]
  have c1: "t = ''72 *F'' \<longrightarrow> parsers regexpTemp src index = Return (GoInt 72)"
    using p by (simp add: TrimSuffix_def HasSuffix_def Atoi_72)
  have c2: "t = r @ '' *F'' \<longrightarrow> TrimSuffix t '' *F'' = r"
    using TrimSuffix_append [of r "'' *F''"] by simp
  have c3: "\<not> HasSuffix t '' *F'' \<longrightarrow> TrimSuffix t '' *F'' = t"
    by (simp add: TrimSuffix_def)
  have c4: "parsers regexpTemp src index =
           Return (GoInt (if sg = ''-'' then - int (decimal ds) else int (decimal ds)))"
    if "sg = [] \<or> sg = ''+'' \<or> sg = ''-''" "list_all (\<lambda>ch. digit_val ch \<noteq> None) ds"
      "TrimSuffix t '' *F'' = sg @ ds" "ds \<noteq> []"
      "if sg = ''-'' then decimal ds \<le> 2 ^ 63 else decimal ds < 2 ^ 63"
    using that p Atoi_numeral [of sg ds] by (auto split: if_splits)
  have c5: "parsers regexpTemp src index =
           Return (GoInt (if sg = ''-'' then - (2 ^ 63) else 2 ^ 63 - 1))"
    if "sg = [] \<or> sg = ''+'' \<or> sg = ''-''" "list_all (\<lambda>ch. digit_val ch \<noteq> None) ds"
      "TrimSuffix t '' *F'' = sg @ ds" "ds \<noteq> []"
      "if sg = ''-'' then 2 ^ 63 < decimal ds else 2 ^ 63 \<le> decimal ds"
    using that p Atoi_numeral [of sg ds] by (auto split: if_splits)
  have c6: "parsers regexpTemp src index =
           Return (GoInt (if sg = ''-'' then - (2 ^ 63) else 2 ^ 63 - 1))"
    if "sg = [] \<or> sg = ''+'' \<or> sg = ''-''" "list_all (\<lambda>ch. digit_val ch \<noteq> None) ds"
      "TrimSuffix t '' *F'' = sg @ ds @ tail" "2 ^ 64 \<le> decimal ds"
    using that p Atoi_overflow [of sg ds tail] by (auto split: if_splits)
  have c7: "parsers regexpTemp src index = Return (GoInt 0)"
    if "sg = [] \<or> sg = ''+'' \<or> sg = ''-''" "TrimSuffix t '' *F'' = sg"
    using that p Atoi_bare_sign [of sg] by simp
  have c8: "parsers regexpTemp src index = Return (GoInt 0)"
    if "sg = [] \<or> sg = ''+'' \<or> sg = ''-''" "list_all (\<lambda>ch. digit_val ch \<noteq> None) ds"
      "TrimSuffix t '' *F'' = sg @ ds @ ch # tail" "decimal ds < 2 ^ 64" "digit_val ch = None"
      "\<not> (sg = [] \<and> ds = [] \<and> (ch = CHR ''+'' \<or> ch = CHR ''-''))"
    using that p Atoi_not_digit [of sg ds ch tail] by auto
  from c1 c2 c3 c4 c5 c6 c7 c8 show ?thesis by blast
qed

lemma Sprintf_02d_1: "Sprintf_02d 1 = ''01''"
  by code_simp

lemma digits_72: "list_all (\<lambda>ch. digit_val ch \<noteq> None) ''72''" "decimal ''72'' = 72"
  by (simp_all add: digit_val_def decimal_def)

lemma digits_21_nines:
  "list_all (\<lambda>ch. digit_val ch \<noteq> None) ''999999999999999999999''"
  "decimal ''999999999999999999999'' = 999999999999999999999"
  by (simp_all add: digit_val_def decimal_def)

theorem Temp_transform_witness:
  "parsers regexpTemp [(''TempValue01'', String ''72 *F'')] 1 = Return (GoInt 72) \<and>
   parsers regexpTemp [(''TempValue01'', String ''72'')] 1 = Return (GoInt 72) \<and>
   parsers regexpTemp [(''TempValue01'', String ''warm *F'')] 1 = Return (GoInt 0) \<and>
   parsers regexpTemp [(''TempValue01'', String ''999999999999999999999 F'')] 1 =
     Return (GoInt 9223372036854775807)"
proof -
  have h: "index_map [(''TempValue01'', String s)] (''TempValue'' @ Sprintf_02d 1) = String s" for s
    by (simp add: index_map_def Sprintf_02d_1)
  have a: "parsers regexpTemp [(''TempValue01'', String ''72 *F'')] 1 = Return (GoInt 72)"
    using Temp_transform [where src = "[(''TempValue01'', String ''72 *F'')]" and index = 1
        and t = "''72 *F''"] h
    by blast
  have n: "\<not> HasSuffix ''72'' '' *F''" "\<not> HasSuffix ''999999999999999999999 F'' '' *F''"
    by (simp_all add: HasSuffix_def)
  have t2: "TrimSuffix ''72'' '' *F'' = [] @ ''72''"
    using n(1) by (simp add: TrimSuffix_def)
  have b: "parsers regexpTemp [(''TempValue01'', String ''72'')] 1 = Return (GoInt 72)"
    using Temp_transform [where src = "[(''TempValue01'', String ''72'')]" and index = 1
        and t = "''72''" and sg = "[]" and ds = "''72''"] h [of "''72''"] t2 digits_72
    by simp
  have t3: "TrimSuffix ''warm *F'' '' *F'' = [] @ [] @ CHR ''w'' # ''arm''"
    by (simp add: TrimSuffix_def HasSuffix_def)
  have w: "digit_val CHR ''w'' = None" by (simp add: digit_val_def)
  have c: "parsers regexpTemp [(''TempValue01'', String ''warm *F'')] 1 = Return (GoInt 0)"
    using Temp_transform [where src = "[(''TempValue01'', String ''warm *F'')]" and index = 1
        and t = "''warm *F''" and sg = "[]" and ds = "[]" and ch = "CHR ''w''" and tail = "''arm''"]
      h [of "''warm *F''"] t3 w
    by (simp add: decimal_def)
  have t4: "TrimSuffix ''999999999999999999999 F'' '' *F'' = [] @ ''999999999999999999999'' @ '' F''"
    using n(2) by (simp add: TrimSuffix_def)
  have d: "parsers regexpTemp [(''TempValue01'', String ''999999999999999999999 F'')] 1 =
     Return (GoInt 9223372036854775807)"
    using Temp_transform [where src = "[(''TempValue01'', String ''999999999999999999999 F'')]"
        and index = 1 and t = "''999999999999999999999 F''" and sg = "[]"
        and ds = "''999999999999999999999''" and tail = "'' F''"]
      h [of "''999999999999999999999 F''"] t4 digits_21_nines
    by simp
  from a b c d show ?thesis by blast
qed

text \<open>
  The claim as it is written fails where \<open>Atoi\<close> reports a range error: the parse fails,
  and the value is not 0.
\<close>

theorem Temp_out_of_range:
  "parsers regexpTemp [(''TempValue01'', String ''99999999999999999999 *F'')] 1 =
     Return (GoInt 9223372036854775807) \<and>
   snd (Atoi (TrimSuffix ''99999999999999999999 *F'' '' *F'')) = Some ErrRange"
  by (simp add: parsers_def index_map_def Sprintf_02d_1 assert_string_def TrimSuffix_def
      HasSuffix_def Atoi_too_big)

lemma keyify_Meter_A: "keyify (\<lambda>r. r) ''Meter A'' = ''meter_a''"
  by code_simp

lemma match_M101: "FindStringSubmatch regexpMeter ''M101'' = [''M101'', ''01'']"
  by (simp add: FindStringSubmatch_def literal_def HasPrefix_def digit_val_def Let_def)

lemma parsers_passthrough:
  "re \<noteq> regexpTemp \<Longrightarrow> parsers re src index = Return (index_map src (companion re index))"
  by (cases re) (simp_all add: parsers_def companion_def)

lemma FindStringSubmatch_digits:
  "FindStringSubmatch re key = [key, ds] \<Longrightarrow> ds \<noteq> [] \<and> list_all (\<lambda>ch. digit_val ch \<noteq> None) ds"
  by (auto simp: FindStringSubmatch_def Let_def split: if_splits)

lemma loop_matched_absent:
  assumes "distinct ps" "re \<in> set ps" "re \<noteq> regexpTemp"
    and m: "FindStringSubmatch re key = [key, ds]" and a: "decimal ds < 2 ^ 63"
    and absent: "map_of vs (companion re (int (decimal ds))) = None"
  shows "range_parsers_loop tbl vs key (String label) ps flds = Return (flds(keyify tbl label \<mapsto> Nil))"
proof -
  from FindStringSubmatch_digits [OF m] a have at: "Atoi ds = (int (decimal ds), None)"
    by (simp add: Atoi_digits)
  have "range_parsers_loop tbl vs key (String label) ps flds
      = range_parsers_loop tbl vs key (String label) [re] flds"
    using assms(1,2) m by (intro loop_single) simp_all
  also have "\<dots> = Return (flds(keyify tbl label \<mapsto> Nil))"
    using m at absent assms(3)
    by (simp add: parsers_passthrough index_map_def assert_string_def)
  finally show ?thesis .
qed

lemma loop_writes_label:
  "range_parsers_loop tbl vs key name ps f = Return f' \<Longrightarrow>
   f' = f \<or> (\<exists>label v. name = String label \<and> list_ex (\<lambda>re. FindStringSubmatch re key \<noteq> []) ps
                \<and> f' = f(keyify tbl label \<mapsto> v))"
proof (induction ps arbitrary: f)
  case Nil
  then show ?case by simp
next
  case (Cons re ps)
  show ?case
  proof (cases "length (FindStringSubmatch re key) < 2 \<or> snd (Atoi (FindStringSubmatch re key ! 1)) \<noteq> None")
    case True
    with Cons.prems have "range_parsers_loop tbl vs key name ps f = Return f'"
      by (auto simp: Let_def split: prod.splits option.splits)
    from Cons.IH [OF this] show ?thesis by auto
  next
    case False
    then have m: "FindStringSubmatch re key \<noteq> []" by auto
    from False Cons.prems obtain index v label where
      s: "name = String label"
      and r: "range_parsers_loop tbl vs key name ps (f(keyify tbl label \<mapsto> v)) = Return f'"
      by (auto simp: Let_def assert_string_def split: prod.splits option.splits res.splits iface.splits)
    from Cons.IH [OF r] show ?thesis
    proof (elim disjE exE conjE)
      assume "f' = f(keyify tbl label \<mapsto> v)"
      with s m show ?thesis by (intro disjI2 exI [of _ label] exI [of _ v]) simp
    next
      fix label' v'
      assume a: "name = String label'" "f' = (f(keyify tbl label \<mapsto> v))(keyify tbl label' \<mapsto> v')"
      with s have "label' = label" by simp
      with a have "f' = f(keyify tbl label \<mapsto> v')" by simp
      with s m show ?thesis by (intro disjI2 exI [of _ label] exI [of _ v']) simp
    qed
  qed
qed

lemma range_values_skip_unmatched:
  "range_values_loop env vs kvs flds =
   range_values_loop env vs
     (filter (\<lambda>kv. list_ex (\<lambda>re. FindStringSubmatch re (fst kv) \<noteq> []) (range_parsers env (fst kv))) kvs) flds"
proof (induction kvs arbitrary: flds)
  case Nil
  then show ?case by simp
next
  case (Cons kv kvs)
  obtain key name where kv: "kv = (key, name)" by (cases kv)
  show ?case
  proof (cases "list_ex (\<lambda>re. FindStringSubmatch re key \<noteq> []) (range_parsers env key)")
    case True
    with kv Cons.IH show ?thesis by (simp split: res.splits)
  next
    case False
    then have "list_all (\<lambda>re. FindStringSubmatch re key = []) (range_parsers env key)"
      by (simp add: list_all_iff list_ex_iff)
    then have "range_parsers_loop (To_LowerCase env) vs key name (range_parsers env key) flds = Return flds"
      by (rule loop_no_match)
    with kv False Cons.IH show ?thesis by simp
  qed
qed

lemma range_values_origin:
  "range_values_loop env vs kvs f = Return out \<Longrightarrow> out k \<noteq> f k \<Longrightarrow>
   \<exists>key label. (key, String label) \<in> set kvs
     \<and> list_ex (\<lambda>re. FindStringSubmatch re key \<noteq> []) (range_parsers env key)
     \<and> k = keyify (To_LowerCase env) label"
proof (induction kvs arbitrary: f)
  case Nil
  then show ?case by simp
next
  case (Cons kv kvs)
  obtain key name where kv: "kv = (key, name)" by (cases kv)
  from Cons.prems(1) kv obtain f1 where
    s: "range_parsers_loop (To_LowerCase env) vs key name (range_parsers env key) f = Return f1"
    and r: "range_values_loop env vs kvs f1 = Return out"
    by (auto split: res.splits)
  show ?case
  proof (cases "out k = f1 k")
    case False
    from Cons.IH [OF r False] show ?thesis by auto
  next
    case True
    with Cons.prems(2) have "f1 k \<noteq> f k" by simp
    with loop_writes_label [OF s] obtain label v where
      "name = String label" "list_ex (\<lambda>re. FindStringSubmatch re key \<noteq> []) (range_parsers env key)"
      "f1 = f(keyify (To_LowerCase env) label \<mapsto> v)"
      by auto
    with \<open>f1 k \<noteq> f k\<close> kv show ?thesis by (auto split: if_splits)
  qed
qed

lemma range_values_keeps_nil:
  assumes ret: "range_values_loop env vs kvs f = Return out"
    and step: "\<And>g. range_parsers_loop (To_LowerCase env) vs key (String label) (range_parsers env key) g
                 = Return (g(keyify (To_LowerCase env) label \<mapsto> Nil))"
    and others: "\<forall>kv \<in> set kvs. kv \<noteq> (key, String label) \<longrightarrow>
                   (\<forall>l. snd kv = String l \<longrightarrow> keyify (To_LowerCase env) l \<noteq> keyify (To_LowerCase env) label)"
    and start: "(key, String label) \<in> set kvs \<or> f (keyify (To_LowerCase env) label) = Some Nil"
  shows "out (keyify (To_LowerCase env) label) = Some Nil"
  using ret others start
proof (induction kvs arbitrary: f)
  case Nil
  then show ?case by simp
next
  case (Cons kv kvs)
  let ?k = "keyify (To_LowerCase env) label"
  obtain key' name' where kv: "kv = (key', name')" by (cases kv)
  from Cons.prems(1) kv obtain f1 where
    s: "range_parsers_loop (To_LowerCase env) vs key' name' (range_parsers env key') f = Return f1"
    and r: "range_values_loop env vs kvs f1 = Return out"
    by (auto split: res.splits)
  have rest: "\<forall>kv \<in> set kvs. kv \<noteq> (key, String label) \<longrightarrow>
      (\<forall>l. snd kv = String l \<longrightarrow> keyify (To_LowerCase env) l \<noteq> ?k)"
    using Cons.prems(2) by simp
  show ?case
  proof (cases "kv = (key, String label)")
    case True
    with kv s step [of f] have "f1 ?k = Some Nil" by simp
    then show ?thesis using Cons.IH [OF r rest] by simp
  next
    case False
    with Cons.prems(2) kv have o: "\<forall>l. name' = String l \<longrightarrow> keyify (To_LowerCase env) l \<noteq> ?k"
      by simp
    from loop_writes_label [OF s] o have same: "f1 ?k = f ?k" by auto
    from False Cons.prems(3) have "(key, String label) \<in> set kvs \<or> f ?k = Some Nil" by auto
    with same have "(key, String label) \<in> set kvs \<or> f1 ?k = Some Nil" by simp
    then show ?thesis using Cons.IH [OF r rest] by simp
  qed
qed

text \<open>
  Claim C4, as the code has it. A key that matches none of the rules is passed over:
  extraction gives the same result, field map or panic, as it gives on the matched keys
  alone, and every entry of a field map it returns is the normalized label of a matched
  key. A key that matches the meter, label, status or relay rule with digits that fit
  an \<open>int\<close>, whose own value is a string \<open>label\<close> and whose companion key is missing from
  the payload, does get an entry: handling the key stores \<open>nil\<close> under the normalized
  label, and when extraction returns and no other entry of the payload carries a label
  with the same normalized name, the field map holds \<open>nil\<close> there.
\<close>

theorem unmatched_or_absent:
  "range_values_loop env vs kvs flds =
     range_values_loop env vs
       (filter (\<lambda>kv. list_ex (\<lambda>re. FindStringSubmatch re (fst kv) \<noteq> []) (range_parsers env (fst kv))) kvs)
       flds \<and>
   (range_values_loop env vs vs Map.empty = Return out \<and> out k \<noteq> None \<longrightarrow>
      (\<exists>key' label'. (key', String label') \<in> set vs
         \<and> list_ex (\<lambda>re. FindStringSubmatch re key' \<noteq> []) (range_parsers env key')
         \<and> k = keyify (To_LowerCase env) label')) \<and>
   (distinct ps \<and> re \<in> set ps \<and> re \<noteq> regexpTemp \<and> FindStringSubmatch re key = [key, ds]
      \<and> decimal ds < 2 ^ 63 \<and> map_of vs (companion re (int (decimal ds))) = None \<longrightarrow>
      range_parsers_loop tbl vs key (String label) ps flds = Return (flds(keyify tbl label \<mapsto> Nil))) \<and>
   (range_values_loop env vs vs Map.empty = Return out \<and> (key, String label) \<in> set vs
      \<and> distinct (range_parsers env key) \<and> re \<in> set (range_parsers env key) \<and> re \<noteq> regexpTemp
      \<and> FindStringSubmatch re key = [key, ds] \<and> decimal ds < 2 ^ 63
      \<and> map_of vs (companion re (int (decimal ds))) = None
      \<and> (\<forall>kv \<in> set vs. kv \<noteq> (key, String label) \<longrightarrow>
            (\<forall>l. snd kv = String l \<longrightarrow>
               keyify (To_LowerCase env) l \<noteq> keyify (To_LowerCase env) label)) \<longrightarrow>
      out (keyify (To_LowerCase env) label) = Some Nil)"
proof -
  have c1: "range_values_loop env vs kvs flds =
     range_values_loop env vs
       (filter (\<lambda>kv. list_ex (\<lambda>re. FindStringSubmatch re (fst kv) \<noteq> []) (range_parsers env (fst kv))) kvs)
       flds"
    by (rule range_values_skip_unmatched)
  have c2: "\<exists>key' label'. (key', String label') \<in> set vs
         \<and> list_ex (\<lambda>re. FindStringSubmatch re key' \<noteq> []) (range_parsers env key')
         \<and> k = keyify (To_LowerCase env) label'"
    if "range_values_loop env vs vs Map.empty = Return out" "out k \<noteq> None"
    using range_values_origin [OF that(1), of k] that(2) by simp
  have c3: "range_parsers_loop tbl vs key (String label) ps flds = Return (flds(keyify tbl label \<mapsto> Nil))"
    if "distinct ps" "re \<in> set ps" "re \<noteq> regexpTemp" "FindStringSubmatch re key = [key, ds]"
      "decimal ds < 2 ^ 63" "map_of vs (companion re (int (decimal ds))) = None"
    using that by (rule loop_matched_absent)
  have c4: "out (keyify (To_LowerCase env) label) = Some Nil"
    if r: "range_values_loop env vs vs Map.empty = Return out" and i: "(key, String label) \<in> set vs"
      and d: "distinct (range_parsers env key)" "re \<in> set (range_parsers env key)" "re \<noteq> regexpTemp"
      "FindStringSubmatch re key = [key, ds]" "decimal ds < 2 ^ 63"
      "map_of vs (companion re (int (decimal ds))) = None"
      and o: "\<forall>kv \<in> set vs. kv \<noteq> (key, String label) \<longrightarrow>
            (\<forall>l. snd kv = String l \<longrightarrow>
               keyify (To_LowerCase env) l \<noteq> keyify (To_LowerCase env) label)"
  proof (rule range_values_keeps_nil [OF r _ o])
    show "range_parsers_loop (To_LowerCase env) vs key (String label) (range_parsers env key) g
        = Return (g(keyify (To_LowerCase env) label \<mapsto> Nil))" for g
      using d by (rule loop_matched_absent)
    show "(key, String label) \<in> set vs \<or> Map.empty (keyify (To_LowerCase env) label) = Some Nil"
      using i by simp
  qed
  from c1 c2 c3 c4 show ?thesis by blast
qed

text \<open>
  The claim as it is written fails on a payload whose only key is \<open>M101\<close>, without
  \<open>MeterValue01\<close>: the field map gets the entry \<open>meter_a\<close>.
\<close>

theorem absent_companion_nil_entry:
  "range_values_loop script_env [(''M101'', String ''Meter A'')] [(''M101'', String ''Meter A'')]
     Map.empty = Return [''meter_a'' \<mapsto> Nil]"
  by (simp add: script_env_def test_env_def Let_def match_M101 Atoi_01 parsers_def
      Sprintf_02d_1 index_map_def assert_string_def keyify_Meter_A
      FindStringSubmatch_def literal_def HasPrefix_def digit_val_def)

lemma keyify_12_days: "keyify (\<lambda>r. r) ''12 days'' = ''12_days''"
  by code_simp

lemma extract_Uptime_M101:
  "range_values_loop script_env [(''Uptime'', String ''12 days''), (''M101'', String ''Meter A'')]
     [(''Uptime'', String ''12 days''), (''M101'', String ''Meter A'')] Map.empty
   = Return [''meter_a'' \<mapsto> Nil]"
  by (simp add: script_env_def test_env_def Let_def match_M101 Atoi_01 parsers_def
      Sprintf_02d_1 index_map_def assert_string_def keyify_Meter_A
      FindStringSubmatch_def literal_def HasPrefix_def digit_val_def)

theorem unmatched_or_absent_witness:
  "range_values_loop script_env [(''Uptime'', String ''12 days''), (''M101'', String ''Meter A'')]
     [(''Uptime'', String ''12 days''), (''M101'', String ''Meter A'')] Map.empty
   = range_values_loop script_env [(''Uptime'', String ''12 days''), (''M101'', String ''Meter A'')]
       [(''M101'', String ''Meter A'')] Map.empty \<and>
   range_values_loop script_env [(''Uptime'', String ''12 days''), (''M101'', String ''Meter A'')]
     [(''Uptime'', String ''12 days''), (''M101'', String ''Meter A'')] Map.empty
   = Return [''meter_a'' \<mapsto> Nil] \<and>
   [''meter_a'' \<mapsto> Nil] (keyify (To_LowerCase script_env) ''Meter A'') = Some Nil"
proof -
  let ?vs = "[(''Uptime'', String ''12 days''), (''M101'', String ''Meter A'')]"
  let ?out = "[''meter_a'' \<mapsto> Nil]"
  note T = unmatched_or_absent [where env = script_env and vs = ?vs and kvs = ?vs
      and flds = Map.empty and out = ?out and key = "''M101''" and label = "''Meter A''"
      and re = regexpMeter and ds = "''01''"]
  have rp: "range_parsers script_env key = [regexpTemp, regexpMeter, regexpVC, regexpStatus, regexpRelay]" for key
    by (simp add: script_env_def test_env_def)
  have tl: "To_LowerCase script_env = (\<lambda>r. r)" by (simp add: script_env_def test_env_def)
  have f: "filter (\<lambda>kv. list_ex (\<lambda>re. FindStringSubmatch re (fst kv) \<noteq> []) (range_parsers script_env (fst kv))) ?vs
      = [(''M101'', String ''Meter A'')]"
    by (simp add: rp FindStringSubmatch_def literal_def HasPrefix_def digit_val_def Let_def)
  have a: "range_values_loop script_env ?vs ?vs Map.empty
      = range_values_loop script_env ?vs [(''M101'', String ''Meter A'')] Map.empty"
    using T f by simp
  have d: "decimal ''01'' < 2 ^ 63" "int (decimal ''01'') = 1" by (simp_all add: decimal_def)
  have ab: "map_of ?vs (companion regexpMeter (int (decimal ''01''))) = None"
    by (simp add: d companion_def Sprintf_02d_1)
  have o: "\<forall>kv \<in> set ?vs. kv \<noteq> (''M101'', String ''Meter A'') \<longrightarrow>
      (\<forall>l. snd kv = String l \<longrightarrow> keyify (To_LowerCase script_env) l \<noteq> keyify (To_LowerCase script_env) ''Meter A'')"
    by (simp add: tl keyify_12_days keyify_Meter_A)
  have "distinct (range_parsers script_env ''M101'') \<and> regexpMeter \<in> set (range_parsers script_env ''M101'')
      \<and> regexpMeter \<noteq> regexpTemp \<and> (''M101'', String ''Meter A'') \<in> set ?vs"
    by (simp add: rp)
  with T extract_Uptime_M101 match_M101 d(1) ab o
  have c: "?out (keyify (To_LowerCase script_env) ''Meter A'') = Some Nil"
    by blast
  from a extract_Uptime_M101 c show ?thesis by blast
qed

section \<open>Polling a device\<close>

text \<open>
  A poll that is answered with status 200 and a JSON body without a map under
  \<open>values\<close> does not return: the type assertion panics.
\<close>

lemma Gather_shape_panic:
  assumes "send env d MethodGet ''/cgi-bin/getexchanger_monitor.cgi'' None True w = Return (Inr r, w')"
    and "StatusCode r = StatusOK"
    and "decode_map env (Body r) = Inr data"
    and "\<forall>m. index_map data ''values'' \<noteq> Map m"
  shows "device_Gather env d acc w = Panic ''interface conversion: interface {} is not map[string]interface {}''"
  using assms
  by (cases "index_map data ''values''") (simp_all add: device_Gather_def assert_map_def)

text \<open>
  Claim C3, evaluated on a logged-in device whose poll is answered with status 200 and
  the body \<open>{}\<close>: \<open>Gather\<close> panics, where the claim has it return an error.
\<close>

theorem Gather_missing_values_panics:
  "device_Gather script_env logged_in \<lparr>Metrics = [], Errors = []\<rparr> ([], [Inr (ok_response ''{}'')]) =
     Panic ''interface conversion: interface {} is not map[string]interface {}''"
  by (simp add: device_Gather_def send_def NewRequest_def script_env_def test_env_def
      URL_String_localhost logged_in_def AddCookie_def Client_Do_def scripted_Do_def
      MethodGet_def MethodPost_def StatusOK_def ok_response_def decode_map_def index_map_def
      assert_map_def)

section \<open>A gather cycle\<close>

lemma device_Gather_error_acc:
  "device_Gather env d acc w = Return (Some err, acc', w') \<Longrightarrow> acc' = acc"
  by (auto simp: device_Gather_def split: res.splits sum.splits prod.splits if_splits)

lemma device_Gather_ok_acc:
  "device_Gather env d acc w = Return (None, acc', w') \<Longrightarrow>
   \<exists>flds. acc' = AddFields acc ''broadcasttools'' flds None"
  by (auto simp: device_Gather_def split: res.splits sum.splits prod.splits if_splits)

lemma filter_single_index:
  assumes k: "k < length ds" and Pk: "P (ds ! k)" and others: "\<forall>i < length ds. i \<noteq> k \<longrightarrow> \<not> P (ds ! i)"
  shows "filter P ds = [ds ! k]"
proof -
  have split: "ds = take k ds @ ds ! k # drop (Suc k) ds" using k by (rule id_take_nth_drop)
  have "filter P (take k ds) = []"
  proof -
    have "\<forall>x \<in> set (take k ds). \<not> P x"
    proof
      fix x assume "x \<in> set (take k ds)"
      then obtain i where "i < length (take k ds)" "take k ds ! i = x" by (auto simp: in_set_conv_nth)
      then have "i < k" "i < length ds" "ds ! i = x" using k by auto
      with others show "\<not> P x" by auto
    qed
    then show ?thesis by (simp add: filter_empty_conv)
  qed
  moreover have "filter P (drop (Suc k) ds) = []"
  proof -
    have "\<forall>x \<in> set (drop (Suc k) ds). \<not> P x"
    proof
      fix x assume "x \<in> set (drop (Suc k) ds)"
      then obtain i where "i < length (drop (Suc k) ds)" "drop (Suc k) ds ! i = x"
        by (auto simp: in_set_conv_nth)
      then have "Suc k + i < length ds" "ds ! (Suc k + i) = x" by auto
      with others show "\<not> P x" by auto
    qed
    then show ?thesis by (simp add: filter_empty_conv)
  qed
  ultimately have "filter P (take k ds @ ds ! k # drop (Suc k) ds) = [ds ! k]" using Pk by simp
  with split show ?thesis by simp
qed


lemma goroutines_poll_results:
  "poll_results env ds acc w = Return es \<Longrightarrow>
   \<exists>acc' w' fs.
     goroutines env ds acc w = Return (acc', w') \<and>
     Errors acc' = Errors acc @ map the (filter (\<lambda>e. e \<noteq> None) es) \<and>
     Metrics acc' = Metrics acc @ map (\<lambda>f. (''broadcasttools'', f, None)) fs \<and>
     length fs = length (filter (\<lambda>e. e = None) es) \<and>
     length es = length ds"
proof (induction ds arbitrary: acc w es)
  case Nil
  then show ?case by (intro exI [of _ acc] exI [of _ w] exI [of _ "[]"]) auto
next
  case (Cons d ds)
  from Cons.prems obtain e a1 w1 where g: "device_Gather env d acc w = Return (e, a1, w1)"
    by (auto split: res.splits prod.splits)
  show ?case
  proof (cases e)
    case (Some err)
    with g have a1: "a1 = acc" using device_Gather_error_acc [of env d acc w err a1 w1] by simp
    from Cons.prems g Some a1 obtain es' where
      es: "es = Some err # es'" and p: "poll_results env ds (AddError acc err) w1 = Return es'"
      by (auto split: res.splits)
    from Cons.IH [OF p] obtain acc' w' fs where
      r: "goroutines env ds (AddError acc err) w1 = Return (acc', w')"
      and e: "Errors acc' = Errors (AddError acc err) @ map the (filter (\<lambda>e. e \<noteq> None) es')"
      and m: "Metrics acc' = Metrics (AddError acc err) @ map (\<lambda>f. (''broadcasttools'', f, None)) fs"
      and n: "length fs = length (filter (\<lambda>e. e = None) es')"
      and l: "length es' = length ds"
      by blast
    have "goroutines env (d # ds) acc w = Return (acc', w')" using g Some a1 r by simp
    moreover have "Errors acc' = Errors acc @ map the (filter (\<lambda>e. e \<noteq> None) es)"
      using e es by (simp add: AddError_def)
    moreover have "Metrics acc' = Metrics acc @ map (\<lambda>f. (''broadcasttools'', f, None)) fs"
      using m by (simp add: AddError_def)
    moreover have "length fs = length (filter (\<lambda>e. e = None) es)" using n es by simp
    moreover have "length es = length (d # ds)" using l es by simp
    ultimately show ?thesis by blast
  next
    case None
    from device_Gather_ok_acc [of env d acc w a1 w1] g None
    obtain f where a1: "a1 = AddFields acc ''broadcasttools'' f None" by auto
    from Cons.prems g None obtain es' where
      es: "es = None # es'" and p: "poll_results env ds a1 w1 = Return es'"
      by (auto split: res.splits)
    from Cons.IH [OF p] obtain acc' w' fs where
      r: "goroutines env ds a1 w1 = Return (acc', w')"
      and e: "Errors acc' = Errors a1 @ map the (filter (\<lambda>e. e \<noteq> None) es')"
      and m: "Metrics acc' = Metrics a1 @ map (\<lambda>f. (''broadcasttools'', f, None)) fs"
      and n: "length fs = length (filter (\<lambda>e. e = None) es')"
      and l: "length es' = length ds"
      by blast
    have "goroutines env (d # ds) acc w = Return (acc', w')" using g None r by simp
    moreover have "Errors acc' = Errors acc @ map the (filter (\<lambda>e. e \<noteq> None) es)"
      using e es a1 by (simp add: AddFields_def)
    moreover have "Metrics acc' = Metrics acc @ map (\<lambda>f. (''broadcasttools'', f, None)) (f # fs)"
      using m a1 by (simp add: AddFields_def)
    moreover have "length (f # fs) = length (filter (\<lambda>e. e = None) es)" using n es by simp
    moreover have "length es = length (d # ds)" using l es by simp
    ultimately show ?thesis by blast
  qed
qed

lemma poll_results_nth:
  "poll_results env ds acc w = Return es \<Longrightarrow> j < length es \<Longrightarrow>
   \<exists>a0 w0 a1 w1. device_Gather env (ds ! j) a0 w0 = Return (es ! j, a1, w1)"
proof (induction ds arbitrary: acc w es j)
  case Nil
  then show ?case by simp
next
  case (Cons d ds)
  from Cons.prems(1) obtain e a1 w1 where g: "device_Gather env d acc w = Return (e, a1, w1)"
    by (auto split: res.splits prod.splits)
  from Cons.prems(1) g obtain es' a2 where
    es: "es = e # es'" and p: "poll_results env ds a2 w1 = Return es'"
    by (cases e) (auto split: res.splits)
  show ?case
  proof (cases j)
    case 0
    with g es show ?thesis by auto
  next
    case (Suc i)
    with Cons.prems(2) es have "i < length es'" by simp
    from Cons.IH [OF p this] Suc es show ?thesis by simp
  qed
qed

text \<open>
  Claim C6: take a cycle on an initialized plugin with N devices, the goroutines running
  in any order, in which the poll of device \<open>k\<close> returns an error \<open>e\<close> and every other poll
  returns nil. Then \<open>Gather\<close> returns nil and leaves the plugin as it is; the accumulator
  has received one error, \<open>e\<close>, returned by the poll of device \<open>k\<close>, and N - 1 field
  maps, each under the name \<open>broadcasttools\<close> with nil tags.
\<close>

theorem Gather_one_poll_fails:
  assumes init: "initialized bt"
    and sched: "mset (go_order env (devices bt)) = mset (devices bt)"
    and run: "poll_results env (go_order env (devices bt)) acc w = Return es"
    and k: "k < length (devices bt)" and j: "j < length es"
    and who: "go_order env (devices bt) ! j = devices bt ! k"
    and bad: "es ! j = Some e"
    and good: "\<forall>i < length es. i \<noteq> j \<longrightarrow> es ! i = None"
  shows "\<exists>acc' w' fs.
           Gather env bt acc w = Return (None, bt, acc', w') \<and>
           Errors acc' = Errors acc @ [e] \<and>
           (\<exists>a0 w0 a1 w1. device_Gather env (devices bt ! k) a0 w0 = Return (Some e, a1, w1)) \<and>
           Metrics acc' = Metrics acc @ map (\<lambda>f. (''broadcasttools'', f, None)) fs \<and>
           length fs = length (devices bt) - 1"
proof -
  let ?ds = "go_order env (devices bt)"
  from goroutines_poll_results [OF run] obtain acc' w' fs where
    r: "goroutines env ?ds acc w = Return (acc', w')"
    and er: "Errors acc' = Errors acc @ map the (filter (\<lambda>e. e \<noteq> None) es)"
    and m: "Metrics acc' = Metrics acc @ map (\<lambda>f. (''broadcasttools'', f, None)) fs"
    and n: "length fs = length (filter (\<lambda>e. e = None) es)"
    and l: "length es = length ?ds"
    by blast
  have others: "\<forall>i < length es. i \<noteq> j \<longrightarrow> \<not> (es ! i \<noteq> None)" using good by simp
  have bad': "es ! j \<noteq> None" using bad by simp
  have single: "filter (\<lambda>e. e \<noteq> None) es = [es ! j]"
    using j bad' others by (rule filter_single_index)
  have errs: "Errors acc' = Errors acc @ [e]" using er single bad by simp
  have "length (filter (\<lambda>e. e \<noteq> None) es) + length (filter (\<lambda>e. \<not> e \<noteq> None) es) = length es"
    by (rule sum_length_filter_compl)
  with single have "length (filter (\<lambda>e. e = None) es) = length es - 1" by simp
  moreover have "length ?ds = length (devices bt)" using sched by (rule mset_eq_length)
  ultimately have fs: "length fs = length (devices bt) - 1" using n l by simp
  from poll_results_nth [OF run j] who bad
  have from_k: "\<exists>a0 w0 a1 w1. device_Gather env (devices bt ! k) a0 w0 = Return (Some e, a1, w1)"
    by simp
  have "Gather env bt acc w = Return (None, bt, acc', w')"
    using init r by (simp add: Gather_def)
  with errs m fs from_k show ?thesis by blast
qed

lemma URL_String_studio_b:
  "URL_String (studio_b\<lparr>RawPath := p\<rparr>) = ''http://studio-b:1776''"
  using unescape_empty [of p]
  by (auto simp add: URL_String_def studio_b_def localhost_def EscapedPath_def escape_def
      Let_def shouldEscape_def alnum_def)

lemma range_values_payload:
  "range_values_loop (test_env do urls bodies)
     [(''M101'', String ''Meter A''), (''MeterValue01'', Float64 (5, 0))]
     [(''M101'', String ''Meter A''), (''MeterValue01'', Float64 (5, 0))] Map.empty =
   Return [''meter_a'' \<mapsto> Float64 (5, 0)]"
  by (simp add: test_env_def Let_def match_M101 Atoi_01 parsers_def
      Sprintf_02d_1 index_map_def assert_string_def keyify_Meter_A
      FindStringSubmatch_def literal_def HasPrefix_def digit_val_def)

lemma poll_flaky:
  "n \<noteq> 1 \<Longrightarrow> ck d = Some session \<Longrightarrow> c d = Some http_Client \<Longrightarrow>
   base d = localhost \<or> base d = studio_b \<Longrightarrow>
   device_Gather flaky_env d acc n =
     Return (None, AddFields acc ''broadcasttools'' [''meter_a'' \<mapsto> Float64 (5, 0)] None, Suc n)"
proof -
  assume n: "n \<noteq> 1" and k: "ck d = Some session" and cl: "c d = Some http_Client"
    and b: "base d = localhost \<or> base d = studio_b"
  have dm: "decode_map flaky_env payload
      = Inr [(''values'', Map [(''M101'', String ''Meter A''), (''MeterValue01'', Float64 (5, 0))])]"
    by (simp add: decode_map_def flaky_env_def test_env_def decoded_def)
  have u: "URL_String ((base d)\<lparr>RawPath := ''/cgi-bin/getexchanger_monitor.cgi''\<rparr>) = ''http://localhost:1776''
      \<or> URL_String ((base d)\<lparr>RawPath := ''/cgi-bin/getexchanger_monitor.cgi''\<rparr>) = ''http://studio-b:1776''"
    using b URL_String_localhost URL_String_studio_b by auto
  have s: "send flaky_env d MethodGet ''/cgi-bin/getexchanger_monitor.cgi'' None True n
      = Return (Inr (ok_response payload), Suc n)"
    using u n k cl
    by (auto simp add: send_def NewRequest_def flaky_env_def test_env_def
      AddCookie_def Client_Do_def flaky_Do_def MethodGet_def MethodPost_def)
  have r: "range_values_loop flaky_env
      [(''M101'', String ''Meter A''), (''MeterValue01'', Float64 (5, 0))]
      [(''M101'', String ''Meter A''), (''MeterValue01'', Float64 (5, 0))] Map.empty =
    Return [''meter_a'' \<mapsto> Float64 (5, 0)]"
    unfolding flaky_env_def by (rule range_values_payload)
  have bd: "Body (ok_response payload) = payload" "StatusCode (ok_response payload) = StatusOK"
    by (simp_all add: ok_response_def StatusOK_def)
  show ?thesis
    unfolding device_Gather_def s
    by (simp add: dm bd r index_map_def assert_map_def del: range_values_loop.simps)
qed

lemma poll_flaky_refused:
  "n = 1 \<Longrightarrow> ck d = Some session \<Longrightarrow> c d = Some http_Client \<Longrightarrow>
   base d = localhost \<or> base d = studio_b \<Longrightarrow>
   device_Gather flaky_env d acc n = Return (Some (libError ''connection refused''), acc, Suc n)"
proof -
  assume n: "n = 1" and k: "ck d = Some session" and cl: "c d = Some http_Client"
    and b: "base d = localhost \<or> base d = studio_b"
  have u: "URL_String ((base d)\<lparr>RawPath := ''/cgi-bin/getexchanger_monitor.cgi''\<rparr>) = ''http://localhost:1776''
      \<or> URL_String ((base d)\<lparr>RawPath := ''/cgi-bin/getexchanger_monitor.cgi''\<rparr>) = ''http://studio-b:1776''"
    using b URL_String_localhost URL_String_studio_b by auto
  have s: "send flaky_env d MethodGet ''/cgi-bin/getexchanger_monitor.cgi'' None True n
      = Return (Inl (libError ''connection refused''), Suc n)"
    using u k cl n
    by (auto simp add: send_def NewRequest_def flaky_env_def test_env_def
      AddCookie_def Client_Do_def flaky_Do_def MethodGet_def MethodPost_def)
  show ?thesis unfolding device_Gather_def s by simp
qed

lemma poll_results_on_air:
  "poll_results flaky_env [logged_in, logged_in_b] \<lparr>Metrics = [], Errors = []\<rparr> 0
     = Return [None, Some (libError ''connection refused'')]"
  by (simp add: poll_flaky poll_flaky_refused logged_in_def logged_in_b_def)

theorem Gather_one_poll_fails_witness:
  "\<exists>acc' w' fs.
     Gather flaky_env on_air \<lparr>Metrics = [], Errors = []\<rparr> 0 = Return (None, on_air, acc', w') \<and>
     Errors acc' = [libError ''connection refused''] \<and>
     Metrics acc' = map (\<lambda>f. (''broadcasttools'', f, None)) fs \<and> length fs = 1"
proof -
  have o: "go_order flaky_env ds = ds" for ds by (simp add: flaky_env_def test_env_def)
  have d: "devices on_air = [logged_in, logged_in_b]" by (simp add: on_air_def)
  have 1: "initialized on_air" by (simp add: on_air_def)
  have 2: "mset (go_order flaky_env (devices on_air)) = mset (devices on_air)" by (simp add: o)
  have 3: "poll_results flaky_env (go_order flaky_env (devices on_air)) \<lparr>Metrics = [], Errors = []\<rparr> 0
      = Return [None, Some (libError ''connection refused'')]"
    unfolding o d by (rule poll_results_on_air)
  have 4: "1 < length (devices on_air)" by (simp add: d)
  have 5: "1 < length [None, Some (libError ''connection refused'')]" by simp
  have 6: "go_order flaky_env (devices on_air) ! 1 = devices on_air ! 1" by (simp add: o)
  have 7: "[None, Some (libError ''connection refused'')] ! 1 = Some (libError ''connection refused'')"
    by simp
  have 8: "\<forall>i < length [None, Some (libError ''connection refused'')]. i \<noteq> 1 \<longrightarrow>
      [None, Some (libError ''connection refused'')] ! i = None"
    by (simp add: less_Suc_eq)
  from Gather_one_poll_fails [OF 1 2 3 4 5 6 7 8] show ?thesis
    by (simp add: d) blast
qed

section \<open>Initialization\<close>






lemma login_form_admin [simp]:
  "User bt = ''admin'' \<Longrightarrow> Password bt = ''password'' \<Longrightarrow>
   login_form bt = ''AccessVal=&LoginPass=password&LoginUser=admin''"
  by (simp add: login_form_def QueryEscape_def escape_def shouldEscape_def alnum_def)







section \<open>Normalizing a label\<close>

lemma m32: "q < 32 \<Longrightarrow> (192 + q) mod 32 = (q::nat)"
  using mod_mult_self2 [of q 32 6] by (simp add: add.commute)
lemma m64: "m < 64 \<Longrightarrow> (128 + m) mod 64 = (m::nat)"
  using mod_mult_self2 [of m 64 2] by (simp add: add.commute)
lemma m16: "q < 16 \<Longrightarrow> (224 + q) mod 16 = (q::nat)"
  using mod_mult_self2 [of q 16 14] by (simp add: add.commute)
lemma m8: "q < 8 \<Longrightarrow> (240 + q) mod 8 = (q::nat)"
  using mod_mult_self2 [of q 8 30] by (simp add: add.commute)

lemma split3: "(r::nat) = (r div 4096) * 4096 + ((r div 64) mod 64) * 64 + r mod 64"
proof -
  have "r div 4096 = r div 64 div 64" by (simp add: div_mult2_eq [symmetric])
  then have "(r div 4096) * 64 + (r div 64) mod 64 = r div 64" by simp
  then have "((r div 4096) * 64 + (r div 64) mod 64) * 64 + r mod 64 = r" by simp
  then show ?thesis by (simp add: algebra_simps)
qed

lemma split4:
  "(r::nat) = (r div 262144) * 262144 + ((r div 4096) mod 64) * 4096 + ((r div 64) mod 64) * 64 + r mod 64"
proof -
  have "r div 4096 = r div 64 div 64" by (simp add: div_mult2_eq [symmetric])
  then have a: "(r div 4096) * 64 + (r div 64) mod 64 = r div 64" by simp
  have "r div 262144 = r div 4096 div 64" by (simp add: div_mult2_eq [symmetric])
  then have b: "(r div 262144) * 64 + (r div 4096) mod 64 = r div 4096" by simp
  have "(((r div 262144) * 64 + (r div 4096) mod 64) * 64 + (r div 64) mod 64) * 64 + r mod 64 = r"
    unfolding b a by simp
  then show ?thesis by (simp add: algebra_simps)
qed

lemma EncodeRune_nonempty: "EncodeRune r \<noteq> []"
  by (simp add: EncodeRune_def)

lemma Decode_Encode_1: "r \<le> 0x7F \<Longrightarrow> DecodeRune (EncodeRune r @ rest) = (r, length (EncodeRune r))"
  by (simp add: EncodeRune_def DecodeRune.simps(2))

lemma Decode_Encode_2:
  assumes "0x7F < r" "r \<le> 0x7FF"
  shows "DecodeRune (EncodeRune r @ rest) = (r, length (EncodeRune r))"
proof -
  define q where "q = r div 64"
  define m where "m = r mod 64"
  have r: "r = q * 64 + m" and m: "m < 64" by (simp_all add: q_def m_def)
  from assms have q: "2 \<le> q" "q < 32" by (simp_all add: q_def)
  have e: "EncodeRune r = [192 + q, 128 + m]"
    using assms by (simp add: EncodeRune_def q_def m_def)
  have fs: "first_size (192 + q) = 2" using q by (simp add: first_size_def)
  have lo: "accept_lo (192 + q) = 128" "accept_hi (192 + q) = 191"
    using q by (simp_all add: accept_lo_def accept_hi_def)
  have ge: "\<not> 192 + q < 128" by simp
  show ?thesis
    unfolding e using m
    by (simp add: DecodeRune.simps(2) Let_def fs lo m32 [OF q(2)] m64 [OF m] r)
qed


lemma Decode_Encode_3:
  assumes "0x7FF < r" "r \<le> 0xFFFF" "r < 0xD800 \<or> 0xDFFF < r"
  shows "DecodeRune (EncodeRune r @ rest) = (r, length (EncodeRune r))"
proof -
  define a where "a = r div 4096"
  define b where "b = (r div 64) mod 64"
  define m where "m = r mod 64"
  have r: "r = a * 4096 + b * 64 + m" unfolding a_def b_def m_def by (rule split3)
  have m: "m < 64" and b: "b < 64" by (simp_all add: m_def b_def)
  from assms have a: "a < 16" by (simp add: a_def)
  have e: "EncodeRune r = [224 + a, 128 + b, 128 + m]"
    using assms by (auto simp add: EncodeRune_def a_def b_def m_def)
  have fs: "first_size (224 + a) = 3" using a by (simp add: first_size_def)
  have lo: "accept_lo (224 + a) \<le> 128 + b"
  proof (cases "a = 0")
    case True
    with assms(1) r m have "32 \<le> b" by simp
    with True show ?thesis by (simp add: accept_lo_def)
  next
    case False
    with a show ?thesis by (simp add: accept_lo_def)
  qed
  have hi: "128 + b \<le> accept_hi (224 + a)"
  proof (cases "a = 13")
    case True
    with assms(3) r m b have "b < 32" by simp
    with True show ?thesis by (simp add: accept_hi_def)
  next
    case False
    with a b show ?thesis by (simp add: accept_hi_def)
  qed
  have c: "contb (128 + m)" using m by (simp add: contb_def)
  show ?thesis
    unfolding e using lo hi
    by (simp add: DecodeRune.simps(2) Let_def fs c m16 [OF a] m64 [OF m] m64 [OF b] r)
qed

lemma Decode_Encode_4:
  assumes "0xFFFF < r" "r \<le> 0x10FFFF"
  shows "DecodeRune (EncodeRune r @ rest) = (r, length (EncodeRune r))"
proof -
  define a where "a = r div 262144"
  define b where "b = (r div 4096) mod 64"
  define k where "k = (r div 64) mod 64"
  define m where "m = r mod 64"
  have r: "r = a * 262144 + b * 4096 + k * 64 + m" unfolding a_def b_def k_def m_def by (rule split4)
  have m: "m < 64" and b: "b < 64" and k: "k < 64" by (simp_all add: m_def b_def k_def)
  from assms have a: "a < 5" by (simp add: a_def)
  then have a8: "a < 8" by simp
  have e: "EncodeRune r = [240 + a, 128 + b, 128 + k, 128 + m]"
    using assms by (auto simp add: EncodeRune_def a_def b_def k_def m_def)
  have fs: "first_size (240 + a) = 4" using a by (simp add: first_size_def)
  have lo: "accept_lo (240 + a) \<le> 128 + b"
  proof (cases "a = 0")
    case True
    with assms(1) r m k have "16 \<le> b" by simp
    with True show ?thesis by (simp add: accept_lo_def)
  next
    case False
    with a show ?thesis by (simp add: accept_lo_def)
  qed
  have hi: "128 + b \<le> accept_hi (240 + a)"
  proof (cases "a = 4")
    case True
    with assms(2) r have "b < 16" by simp
    with True show ?thesis by (simp add: accept_hi_def)
  next
    case False
    with a b show ?thesis by (simp add: accept_hi_def)
  qed
  have c: "contb (128 + m)" "contb (128 + k)" using m k by (simp_all add: contb_def)
  show ?thesis
    unfolding e using lo hi
    by (simp add: DecodeRune.simps(2) Let_def fs c m8 [OF a8] m64 [OF m] m64 [OF b] m64 [OF k] r)
qed

lemma Decode_Encode:
  "ValidRune r \<Longrightarrow> DecodeRune (EncodeRune r @ rest) = (r, length (EncodeRune r))"
  using Decode_Encode_1 [of r rest] Decode_Encode_2 [of r rest] Decode_Encode_3 [of r rest]
    Decode_Encode_4 [of r rest]
  by (simp add: ValidRune_def) linarith

lemma runes_Encode:
  "list_all ValidRune rs \<Longrightarrow> runes (concat (map EncodeRune rs)) = rs"
proof (induction rs)
  case Nil
  then show ?case by (simp add: runes.simps)
next
  case (Cons r rs)
  then have v: "ValidRune r" and IH: "runes (concat (map EncodeRune rs)) = rs" by simp_all
  have "runes (EncodeRune r @ concat (map EncodeRune rs)) = r # rs"
    by (subst runes.simps) (simp add: EncodeRune_nonempty Decode_Encode [OF v] IH)
  then show ?case by simp
qed

lemma DecodeRune_valid: "ValidRune (fst (DecodeRune s))"
proof (cases s)
  case Nil
  then show ?thesis by (simp add: ValidRune_def RuneError_def)
next
  case (Cons s0 t)
  have E: "ValidRune RuneError" by (simp add: ValidRune_def RuneError_def)
  consider (ascii) "s0 < 128" | (bad) "\<not> s0 < 128" "first_size s0 = 0"
    | (two) "194 \<le> s0" "s0 \<le> 223" | (three) "224 \<le> s0" "s0 \<le> 239"
    | (four) "240 \<le> s0" "s0 \<le> 244"
  proof -
    have "first_size s0 = 0 \<or> (194 \<le> s0 \<and> s0 \<le> 223) \<or> (224 \<le> s0 \<and> s0 \<le> 239)
        \<or> (240 \<le> s0 \<and> s0 \<le> 244)"
      by (simp add: first_size_def)
    then show ?thesis using that by (cases "s0 < 128") blast+
  qed
  then show ?thesis
  proof cases
    case ascii
    then show ?thesis unfolding Cons by (simp add: DecodeRune.simps(2) ValidRune_def)
  next
    case bad
    then show ?thesis unfolding Cons using E by (simp add: DecodeRune.simps(2))
  next
    case two
    then have fs: "first_size s0 = 2" by (simp add: first_size_def)
    have "(s0 mod 32) * 64 + (t ! 0) mod 64 < 32 * 64"
    proof -
      have "s0 mod 32 \<le> 31" "(t ! 0) mod 64 \<le> 63" by simp_all
      then show ?thesis by linarith
    qed
    then have "ValidRune ((s0 mod 32) * 64 + (t ! 0) mod 64)" by (simp add: ValidRune_def)
    then show ?thesis unfolding Cons using E two fs
      by (simp add: DecodeRune.simps(2) Let_def)
  next
    case three
    then have fs: "first_size s0 = 3" by (simp add: first_size_def)
    define a where "a = s0 - 224"
    have s0: "s0 = 224 + a" and a: "a < 16" using three by (simp_all add: a_def)
    have ma: "s0 mod 16 = a" unfolding s0 by (rule m16 [OF a])
    have v: "ValidRune (a * 4096 + (t ! 0) mod 64 * 64 + (t ! 1) mod 64)"
      if ok: "accept_lo s0 \<le> t ! 0" "t ! 0 \<le> accept_hi s0"
    proof -
      have b: "(t ! 0) mod 64 \<le> 63" "(t ! 1) mod 64 \<le> 63" by simp_all
      show ?thesis
      proof (cases "a = 13")
        case True
        with ok s0 have "128 \<le> t ! 0" "t ! 0 \<le> 159" by (simp_all add: accept_lo_def accept_hi_def)
        define j where "j = t ! 0 - 128"
        have j: "t ! 0 = 128 + j" "j < 32" using \<open>128 \<le> t ! 0\<close> \<open>t ! 0 \<le> 159\<close> by (simp_all add: j_def)
        then have "(t ! 0) mod 64 = j" using m64 [of j] by simp
        with True b j show ?thesis by (simp add: ValidRune_def)
      next
        case False
        then have "a < 13 \<or> 13 < a" by auto
        with a b show ?thesis by (auto simp: ValidRune_def)
      qed
    qed
    show ?thesis unfolding Cons using E three fs v
      by (auto simp add: DecodeRune.simps(2) Let_def ma not_less)
  next
    case four
    then have fs: "first_size s0 = 4" by (simp add: first_size_def)
    define a where "a = s0 - 240"
    have s0: "s0 = 240 + a" and a: "a < 5" using four by (simp_all add: a_def)
    have ma: "s0 mod 8 = a" unfolding s0 using a by (intro m8) simp
    have v: "ValidRune (a * 262144 + (t ! 0) mod 64 * 4096 + (t ! 1) mod 64 * 64 + (t ! 2) mod 64)"
      if ok: "accept_lo s0 \<le> t ! 0" "t ! 0 \<le> accept_hi s0"
    proof -
      have b: "(t ! 0) mod 64 \<le> 63" "(t ! 1) mod 64 \<le> 63" "(t ! 2) mod 64 \<le> 63" by simp_all
      from ok s0 a have r: "128 \<le> t ! 0" "t ! 0 \<le> 191"
        by (auto simp: accept_lo_def accept_hi_def split: if_splits)
      define j where "j = t ! 0 - 128"
      have j: "t ! 0 = 128 + j" "j < 64" using r by (simp_all add: j_def)
      then have mj: "(t ! 0) mod 64 = j" using m64 [of j] by simp
      have lo: "a = 0 \<Longrightarrow> 16 \<le> j" using ok(1) s0 j by (simp add: accept_lo_def)
      have hi: "a = 4 \<Longrightarrow> j \<le> 15" using ok(2) s0 j by (simp add: accept_hi_def)
      show ?thesis
      proof (cases "a = 0")
        case True
        with lo b mj show ?thesis by (simp add: ValidRune_def)
      next
        case False
        show ?thesis
        proof (cases "a = 4")
          case True
          with hi b mj show ?thesis by (simp add: ValidRune_def)
        next
          case False
          with \<open>a \<noteq> 0\<close> a have "1 \<le> a" "a \<le> 3" by simp_all
          with b j mj show ?thesis by (simp add: ValidRune_def)
        qed
      qed
    qed
    show ?thesis unfolding Cons using E four fs v
      by (auto simp add: DecodeRune.simps(2) Let_def ma not_less)
  qed
qed

lemma runes_valid: "list_all ValidRune (runes s)"
proof (induction s rule: runes.induct)
  case (1 s)
  show ?case
  proof (cases "s = []")
    case True
    then show ?thesis by (simp add: runes.simps)
  next
    case False
    with 1 have "list_all ValidRune (runes (drop (snd (DecodeRune s)) s))" by simp
    with False show ?thesis
      by (subst runes.simps) (simp add: DecodeRune_valid)
  qed
qed

lemma runes_ascii: "list_all (\<lambda>b. b < 128) bs \<Longrightarrow> runes bs = bs"
proof (induction bs)
  case Nil
  then show ?case by (simp add: runes.simps)
next
  case (Cons b bs)
  then show ?case by (subst runes.simps) (simp add: DecodeRune.simps(2))
qed

lemma of_char_less_256: "(of_char ch :: nat) < 256"
proof -
  have "(of_char ch :: nat) mod 256 < 256" by simp
  then show ?thesis by simp
qed

lemma string_of_bytes_of: "string_of (bytes_of s) = s"
  by (simp add: string_of_def bytes_of_def comp_def)

lemma bytes_of_string_of: "list_all (\<lambda>b. b < 256) bs \<Longrightarrow> bytes_of (string_of bs) = bs"
  by (induction bs) (simp_all add: string_of_def bytes_of_def)

lemma mod64_lt128: "(x::nat) mod 64 < 128"
  using mod_less_divisor [of 64 x] by linarith

lemma EncodeRune_bytes: "list_all (\<lambda>b. b < 256 \<and> (r \<noteq> 32 \<longrightarrow> b \<noteq> 32)) (EncodeRune r)"
proof -
  consider (a) "r \<le> 0x7F" | (b) "0x7F < r" "r \<le> 0x7FF"
    | (bad) "0x7FF < r" "r > 0x10FFFF \<or> (0xD800 \<le> r \<and> r \<le> 0xDFFF)"
    | (c) "0x7FF < r" "r \<le> 0xFFFF" "\<not> (r > 0x10FFFF \<or> (0xD800 \<le> r \<and> r \<le> 0xDFFF))"
    | (d) "0xFFFF < r" "r \<le> 0x10FFFF"
    by linarith
  then show ?thesis
  proof cases
    case a
    then show ?thesis by (simp add: EncodeRune_def)
  next
    case b
    then have "r div 64 < 32" "r mod 64 < 64" by simp_all
    with b show ?thesis by (simp add: EncodeRune_def mod64_lt128)
  next
    case bad
    then show ?thesis by (auto simp add: EncodeRune_def)
  next
    case c
    then have "r div 4096 < 16" "r div 64 mod 64 < 64" "r mod 64 < 64" by simp_all
    with c show ?thesis by (simp add: EncodeRune_def mod64_lt128)
  next
    case d
    then have "r div 262144 < 5" "r div 4096 mod 64 < 64" "r div 64 mod 64 < 64" "r mod 64 < 64"
      by simp_all
    with d show ?thesis by (simp add: EncodeRune_def mod64_lt128)
  qed
qed

lemma bytes_lt_256: "list_all (\<lambda>b. b < 256) (concat (map (\<lambda>r. EncodeRune (f r)) rs))"
proof (induction rs)
  case Nil
  then show ?case by simp
next
  case (Cons r rs)
  have "list_all (\<lambda>b. b < 256) (EncodeRune (f r))"
    using EncodeRune_bytes [of "f r"] by (simp add: list_all_iff)
  with Cons show ?case by simp
qed

lemma Replace_all_space:
  "Replace_all s '' '' ''_'' = map (\<lambda>ch. if ch = CHR '' '' then CHR ''_'' else ch) s"
proof (induction s)
  case Nil
  then show ?case by (simp add: Replace_all.simps)
next
  case (Cons x xs)
  then show ?case by (subst Replace_all.simps) (simp add: HasPrefix_def)
qed

lemma char_of_32: "char_of (32::nat) = CHR '' ''"
  by code_simp

lemma char_of_95: "char_of (95::nat) = CHR ''_''"
  by code_simp

lemma char_of_not_space: "b < 256 \<Longrightarrow> b \<noteq> 32 \<Longrightarrow> char_of (b::nat) \<noteq> CHR '' ''"
proof
  assume b: "b < 256" "b \<noteq> 32" and e: "char_of b = CHR '' ''"
  then have "of_char (char_of b) = (of_char (CHR '' '') :: nat)" by simp
  with b show False by simp
qed

lemma sub_Encode:
  "map (\<lambda>ch. if ch = CHR '' '' then CHR ''_'' else ch) (string_of (EncodeRune r)) =
   string_of (EncodeRune (if r = 32 then 95 else r))"
proof (cases "r = 32")
  case True
  then show ?thesis by (simp add: EncodeRune_def string_of_def char_of_32 char_of_95)
next
  case False
  have "\<forall>b \<in> set (EncodeRune r). char_of b \<noteq> CHR '' ''"
    using EncodeRune_bytes [of r] False char_of_not_space by (auto simp: list_all_iff)
  then have "map (\<lambda>ch. if ch = CHR '' '' then CHR ''_'' else ch) (string_of (EncodeRune r))
      = string_of (EncodeRune r)"
    by (simp add: string_of_def comp_def map_idI)
  with False show ?thesis by simp
qed

lemma sub_concat:
  "map (\<lambda>ch. if ch = CHR '' '' then CHR ''_'' else ch) (string_of (concat (map (\<lambda>r. EncodeRune (f r)) rs))) =
   string_of (concat (map (\<lambda>r. EncodeRune (if f r = 32 then 95 else f r)) rs))"
proof (induction rs)
  case Nil
  then show ?case by (simp add: string_of_def)
next
  case (Cons r rs)
  have "string_of (concat (map (\<lambda>r. EncodeRune (f r)) (r # rs)))
      = string_of (EncodeRune (f r)) @ string_of (concat (map (\<lambda>r. EncodeRune (f r)) rs))"
    by (simp add: string_of_def)
  moreover have "string_of (concat (map (\<lambda>r. EncodeRune (if f r = 32 then 95 else f r)) (r # rs)))
      = string_of (EncodeRune (if f r = 32 then 95 else f r))
        @ string_of (concat (map (\<lambda>r. EncodeRune (if f r = 32 then 95 else f r)) rs))"
    by (simp add: string_of_def)
  ultimately show ?case using Cons sub_Encode [of "f r"] by simp
qed

lemma ToLower_ascii_char:
  "(of_char ch :: nat) < 128 \<Longrightarrow>
   char_of (unicode_ToLower tbl (of_char ch)) =
     (if 65 \<le> (of_char ch :: nat) \<and> (of_char ch :: nat) \<le> 90 then char_of ((of_char ch :: nat) + 32) else ch)"
  by (simp add: unicode_ToLower_def)

lemma Encode_ascii:
  "list_all (\<lambda>b. b < 128) bs \<Longrightarrow>
   concat (map (\<lambda>c. EncodeRune (unicode_ToLower tbl c)) bs) = map (unicode_ToLower tbl) bs"
  by (induction bs) (simp_all add: EncodeRune_def unicode_ToLower_def)

lemma Map_ascii:
  assumes "list_all (\<lambda>ch. (of_char ch :: nat) < 128) s"
  shows "strings_Map (unicode_ToLower tbl) s =
     map (\<lambda>ch. if 65 \<le> (of_char ch :: nat) \<and> (of_char ch :: nat) \<le> 90
                 then char_of ((of_char ch :: nat) + 32) else ch) s"
proof -
  have a: "list_all (\<lambda>b. b < 128) (bytes_of s)"
    using assms by (simp add: bytes_of_def list_all_iff)
  have "concat (map (\<lambda>c. EncodeRune (unicode_ToLower tbl c)) (bytes_of s))
      = map (unicode_ToLower tbl) (bytes_of s)"
    using a by (rule Encode_ascii)
  then have "strings_Map (unicode_ToLower tbl) s = string_of (map (unicode_ToLower tbl) (bytes_of s))"
    unfolding strings_Map_def runes_ascii [OF a] by simp
  also have "\<dots> = map (\<lambda>ch. char_of (unicode_ToLower tbl (of_char ch))) s"
    by (simp add: string_of_def bytes_of_def comp_def)
  also have "\<dots> = map (\<lambda>ch. if 65 \<le> (of_char ch :: nat) \<and> (of_char ch :: nat) \<le> 90
                 then char_of ((of_char ch :: nat) + 32) else ch) s"
    using assms by (intro map_cong refl ToLower_ascii_char) (simp add: list_all_iff)
  finally show ?thesis .
qed

lemma ToLower_Map: "ToLower tbl s = strings_Map (unicode_ToLower tbl) s"
proof (cases "list_all (\<lambda>ch. (of_char ch :: nat) < 0x80) s")
  case False
  then show ?thesis by (simp add: ToLower_def)
next
  case True
  show ?thesis
  proof (cases "list_ex (\<lambda>ch. 65 \<le> (of_char ch :: nat) \<and> (of_char ch :: nat) \<le> 90) s")
    case True
    with \<open>list_all (\<lambda>ch. (of_char ch :: nat) < 0x80) s\<close> show ?thesis
      by (simp add: ToLower_def Map_ascii)
  next
    case False
    then have "map (\<lambda>ch. if 65 \<le> (of_char ch :: nat) \<and> (of_char ch :: nat) \<le> 90
                 then char_of ((of_char ch :: nat) + 32) else ch) s = s"
      by (intro map_idI) (auto simp: list_ex_iff)
    with True False show ?thesis by (simp add: ToLower_def Map_ascii)
  qed
qed

lemma keyify_runes:
  "keyify tbl s = string_of (concat (map (\<lambda>r. EncodeRune (keyify_rune tbl r)) (runes (bytes_of s))))"
  by (simp add: keyify_def ToLower_Map Replace_all_space strings_Map_def sub_concat keyify_rune_def)

lemma keyify_idem:
  assumes H: "\<forall>r. ValidRune r \<and> 0x7F < r \<longrightarrow> ValidRune (tbl r) \<and> unicode_ToLower tbl (tbl r) = tbl r"
  shows "keyify tbl (keyify tbl x) = keyify tbl x"
proof -
  let ?L = "unicode_ToLower tbl"
  let ?h = "keyify_rune tbl"
  let ?rs = "runes (bytes_of x)"
  have L_valid: "ValidRune (?L r)" if "ValidRune r" for r
    using that H by (auto simp: unicode_ToLower_def ValidRune_def)
  have L_idem: "?L (?L r) = ?L r" if "ValidRune r" for r
  proof (cases "r \<le> 0x7F")
    case True
    then show ?thesis by (simp add: unicode_ToLower_def)
  next
    case False
    with that H have "?L (tbl r) = tbl r" by simp
    with False show ?thesis by (simp add: unicode_ToLower_def)
  qed
  have h_valid: "ValidRune (?h r)" if "ValidRune r" for r
    using L_valid [OF that] by (simp add: keyify_rune_def ValidRune_def)
  have L95: "?L 95 = 95" by (simp add: unicode_ToLower_def)
  have h_idem: "?h (?h r) = ?h r" if "ValidRune r" for r
    using L_idem [OF that] L95 by (simp add: keyify_rune_def)
  have v: "list_all ValidRune ?rs" by (rule runes_valid)
  have v': "list_all ValidRune (map ?h ?rs)"
    using v h_valid by (simp add: list_all_iff)
  have "bytes_of (keyify tbl x) = concat (map (\<lambda>r. EncodeRune (?h r)) ?rs)"
    unfolding keyify_runes by (rule bytes_of_string_of) (rule bytes_lt_256)
  also have "\<dots> = concat (map EncodeRune (map ?h ?rs))" by (simp add: comp_def)
  finally have "runes (bytes_of (keyify tbl x)) = map ?h ?rs"
    using runes_Encode [OF v'] by simp
  then have "keyify tbl (keyify tbl x) = string_of (concat (map (\<lambda>r. EncodeRune (?h r)) (map ?h ?rs)))"
    by (subst keyify_runes) simp
  also have "\<dots> = string_of (concat (map (\<lambda>r. EncodeRune (?h (?h r))) ?rs))"
    by (simp add: comp_def)
  also have "map (\<lambda>r. EncodeRune (?h (?h r))) ?rs = map (\<lambda>r. EncodeRune (?h r)) ?rs"
    using v h_idem by (intro map_cong refl) (simp add: list_all_iff)
  finally show ?thesis by (simp add: keyify_runes)
qed

text \<open>
  Claim C8: \<open>keyify\<close> is idempotent, for every byte string, valid UTF-8 or not, as long
  as the case table maps a rune beyond ASCII to a rune that \<open>unicode.ToLower\<close> leaves
  alone (a lower-case letter has no lower case of its own); it turns \<open>Temp Sensor 01\<close>
  into \<open>temp_sensor_01\<close>; and on an ASCII string it is the lower-casing of the letters
  \<open>A\<close> to \<open>Z\<close> followed by the replacement of every space by an underscore.
\<close>

theorem keyify_idempotent:
  assumes "\<forall>r. ValidRune r \<and> 0x7F < r \<longrightarrow> ValidRune (tbl r) \<and> unicode_ToLower tbl (tbl r) = tbl r"
  shows "keyify tbl (keyify tbl x) = keyify tbl x \<and>
         keyify tbl ''Temp Sensor 01'' = ''temp_sensor_01'' \<and>
         (list_all (\<lambda>ch. (of_char ch :: nat) < 128) x \<longrightarrow>
            keyify tbl x =
              map (\<lambda>ch. if ch = CHR '' '' then CHR ''_'' else ch)
                (map (\<lambda>ch. if 65 \<le> (of_char ch :: nat) \<and> (of_char ch :: nat) \<le> 90
                            then char_of ((of_char ch :: nat) + 32) else ch) x))"
proof -
  have a: "keyify tbl (keyify tbl x) = keyify tbl x" using assms by (rule keyify_idem)
  have b: "keyify tbl ''Temp Sensor 01'' = ''temp_sensor_01''"
    by (simp add: keyify_def ToLower_def Replace_all_space char_of_def bit_Suc_0_iff)
  have c: "list_all (\<lambda>ch. (of_char ch :: nat) < 128) x \<longrightarrow>
            keyify tbl x =
              map (\<lambda>ch. if ch = CHR '' '' then CHR ''_'' else ch)
                (map (\<lambda>ch. if 65 \<le> (of_char ch :: nat) \<and> (of_char ch :: nat) \<le> 90
                            then char_of ((of_char ch :: nat) + 32) else ch) x)"
    by (simp add: keyify_def ToLower_Map Map_ascii Replace_all_space)
  from a b c show ?thesis by blast
qed

lemma latin1_lower:
  "\<forall>r. ValidRune r \<and> 0x7F < r \<longrightarrow>
       ValidRune (latin1 r) \<and> unicode_ToLower latin1 (latin1 r) = latin1 r"
  by (auto simp: ValidRune_def unicode_ToLower_def latin1_def)

lemma runes_A_space_E_acute: "runes [65, 32, 195, 137] = [65, 32, 201]"
  by (simp add: runes.simps DecodeRune.simps(2) first_size_def accept_lo_def accept_hi_def Let_def)

lemma keyify_A_space_E_acute:
  "keyify latin1 (''A '' @ [CHR 0xC3, CHR 0x89]) = ''a_'' @ [CHR 0xC3, CHR 0xA9]"
  by (simp add: keyify_runes bytes_of_def runes_A_space_E_acute keyify_rune_def
      unicode_ToLower_def latin1_def EncodeRune_def string_of_def char_of_def bit_Suc_0_iff)

theorem keyify_idempotent_witness:
  "keyify latin1 (''A '' @ [CHR 0xC3, CHR 0x89]) = ''a_'' @ [CHR 0xC3, CHR 0xA9] \<and>
   keyify latin1 (keyify latin1 (''A '' @ [CHR 0xC3, CHR 0x89])) = ''a_'' @ [CHR 0xC3, CHR 0xA9] \<and>
   keyify latin1 ''Temp Sensor 01'' = ''temp_sensor_01''"
  using keyify_idempotent [OF latin1_lower, of "''A '' @ [CHR 0xC3, CHR 0x89]"]
    keyify_A_space_E_acute
  by simp

section \<open>The address of a request\<close>

text \<open>
  \<open>send\<close> stores the endpoint in \<open>RawPath\<close> and leaves \<open>Path\<close> as it is. \<open>String\<close> reads
  \<open>RawPath\<close> only where it is an encoding of \<open>Path\<close>, so for a device whose base address
  does not already have the endpoint as its path, the address of the request is the
  one \<open>send\<close> would build for the empty endpoint.
\<close>

lemma URL_String_RawPath_ignored:
  "unescape p \<noteq> Inr (Path u) \<Longrightarrow> URL_String (u\<lparr>RawPath := p\<rparr>) = URL_String (u\<lparr>RawPath := []\<rparr>)"
proof -
  assume a: "unescape p \<noteq> Inr (Path u)"
  have e: "EscapedPath (u\<lparr>RawPath := p\<rparr>) = EscapedPath (u\<lparr>RawPath := []\<rparr>)"
    using a by (simp add: EscapedPath_def)
  have f: "EscapedFragment (u\<lparr>RawPath := q\<rparr>) = EscapedFragment u" for q
    by (simp add: EscapedFragment_def)
  show ?thesis
    unfolding URL_String_def Let_def by (simp add: e f)
qed

lemma unescape_endpoints:
  "unescape ''/cgi-bin/postauth.cgi'' = Inr ''/cgi-bin/postauth.cgi''"
  "unescape ''/cgi-bin/postlogout.cgi'' = Inr ''/cgi-bin/postlogout.cgi''"
  "unescape ''/cgi-bin/getexchanger_monitor.cgi'' = Inr ''/cgi-bin/getexchanger_monitor.cgi''"
  by simp_all

lemma send_path_ignored:
  assumes "p \<in> {''/cgi-bin/postauth.cgi'', ''/cgi-bin/postlogout.cgi'', ''/cgi-bin/getexchanger_monitor.cgi''}"
    and "Path (base d) \<noteq> p"
  shows "send env d method p data sendCookie w = send env d method [] data sendCookie w"
proof -
  from assms(1) have "unescape p = Inr p" using unescape_endpoints by auto
  with assms(2) have "unescape p \<noteq> Inr (Path (base d))" by auto
  then have "URL_String ((base d)\<lparr>RawPath := p\<rparr>) = URL_String ((base d)\<lparr>RawPath := []\<rparr>)"
    by (rule URL_String_RawPath_ignored)
  then show ?thesis by (simp add: send_def)
qed

text \<open>
  Claim C2, evaluated on the device of the sample configuration with a transport that
  records what it is given: the login, the logout and the poll are each sent to
  \<open>http://localhost:1776\<close>, without the endpoint path the claim has appended.
\<close>

theorem requests_without_endpoint:
  "Dial script_env plugin \<lparr>base = localhost, c = Some http_Client, ck = None\<rparr> ([], [Inr (ok_response [])]) =
     Return (None, logged_in,
       ([\<lparr>Method = ''POST'', RequestURL = ''http://localhost:1776'',
          RequestBody = Some ''AccessVal=&LoginPass=password&LoginUser=admin'',
          RequestCookies = [],
          Header = [(''Content-Type'', ''application/x-www-form-urlencoded'')]\<rparr>], []))
   \<and> Close_body script_env logged_in ([], [Inr (ok_response [])]) =
     Return (None, logged_in\<lparr>c := None, ck := None\<rparr>,
       ([\<lparr>Method = ''POST'', RequestURL = ''http://localhost:1776'',
          RequestBody = Some ''Logout=1'', RequestCookies = [session],
          Header = [(''Content-Type'', ''application/x-www-form-urlencoded'')]\<rparr>], []))
   \<and> device_Gather script_env logged_in \<lparr>Metrics = [], Errors = []\<rparr> ([], []) =
     Return (Some (libError ''connection refused''), \<lparr>Metrics = [], Errors = []\<rparr>,
       ([\<lparr>Method = ''GET'', RequestURL = ''http://localhost:1776'',
          RequestBody = None, RequestCookies = [session], Header = []\<rparr>], []))"
  by (simp add: Dial_def Close_body_def device_Gather_def send_def NewRequest_def script_env_def
      test_env_def URL_String_localhost logged_in_def AddCookie_def Client_Do_def scripted_Do_def
      Header_Set_def MethodPost_def MethodGet_def StatusOK_def ok_response_def plugin_def)

end
